theory Spec2Isabelle
  imports Main
begin

section \<open>Python values\<close>

text \<open>
  The engine of \<^verbatim>\<open>src/app/graph_engine.py\<close> passes around values typed \<^verbatim>\<open>Any\<close>: the
  entries of a run's state, what a node or tool function returns, the key of the next node.
  They are modelled by the JSON-shaped fragment of Python's values (floats left out). A
  dictionary with string keys is an association list read with \<open>map_of\<close>.
\<close>

datatype pyval =
    PNone
  | PBool bool
  | PInt int
  | PStr string
  | PList "pyval list"
  | PDict "(string \<times> pyval) list"

text \<open>The run's state, \<^verbatim>\<open>Dict[str, Any]\<close>.\<close>

type_synonym pystate = "string \<rightharpoonup> pyval"

text \<open>
  A raised exception, with its class name and its message (\<^verbatim>\<open>str(exc)\<close>).
  \<open>PyException\<close> is an instance of \<^verbatim>\<open>Exception\<close>, which \<^verbatim>\<open>except Exception\<close> catches;
  \<open>PyBaseException\<close> is one of the others (\<^verbatim>\<open>SystemExit\<close>, \<^verbatim>\<open>KeyboardInterrupt\<close>), which it
  does not.
\<close>

datatype pyexn =
    PyException string string
  | PyBaseException string string

fun exn_msg :: "pyexn \<Rightarrow> string" where
  "exn_msg (PyException c m) = m"
| "exn_msg (PyBaseException c m) = m"

definition RuntimeError :: "string \<Rightarrow> pyexn" where
  "RuntimeError m = PyException ''RuntimeError'' m"

definition TypeError :: "string \<Rightarrow> pyexn" where
  "TypeError m = PyException ''TypeError'' m"

text \<open>
  What a function's body does: it receives the state, may mutate it in place, and returns a
  value or raises; the state it leaves is kept in both cases.
\<close>

type_synonym callable = "pystate \<Rightarrow> pystate \<times> (pyexn + pyval)"

text \<open>
  A registered node or tool function is a coroutine function (\<^verbatim>\<open>async def\<close>) or a plain
  one; \<^verbatim>\<open>inspect.iscoroutinefunction\<close> tells them apart.
\<close>

datatype pyfn =
    AsyncDef callable
  | Def callable

fun body :: "pyfn \<Rightarrow> callable" where
  "body (AsyncDef f) = f"
| "body (Def f) = f"

text \<open>
  How a stretch of the engine's coroutine ends when it does not run to its end: an
  exception leaves it, or it stays at an \<^verbatim>\<open>await\<close> that is never resumed.
\<close>

datatype abrupt =
    Raised pyexn
  | Pending

subsection \<open>\<^verbatim>\<open>str\<close>, \<^verbatim>\<open>str.lower\<close> and truthiness\<close>

definition sq :: string where
  "sq = [CHR 0x27]"

definition nl :: string where
  "nl = [CHR 0x0A]"

definition digit_char :: "nat \<Rightarrow> char" where
  "digit_char n = ''0123456789'' ! n"

function str_nat :: "nat \<Rightarrow> string" where
  "str_nat n = (if n < 10 then [digit_char n] else str_nat (n div 10) @ [digit_char (n mod 10)])"
  by pat_completeness auto
termination
  by (relation "measure (\<lambda>n. n)") auto

declare str_nat.simps [simp del]

definition str_int :: "int \<Rightarrow> string" where
  "str_int i = (if i < 0 then CHR ''-'' # str_nat (nat (- i)) else str_nat (nat i))"

fun join :: "string \<Rightarrow> string list \<Rightarrow> string" where
  "join sep [] = []"
| "join sep [x] = x"
| "join sep (x # y # ys) = x @ sep @ join sep (y # ys)"

text \<open>
  \<^verbatim>\<open>str(obj)\<close>. A container prints its items with \<^verbatim>\<open>repr\<close>, Python's built-in, which is
  the parameter \<open>r\<close>.
\<close>

fun py_str :: "(pyval \<Rightarrow> string) \<Rightarrow> pyval \<Rightarrow> string" where
  "py_str r PNone = ''None''"
| "py_str r (PBool b) = (if b then ''True'' else ''False'')"
| "py_str r (PInt i) = str_int i"
| "py_str r (PStr s) = s"
| "py_str r (PList xs) = ''['' @ join '', '' (map r xs) @ '']''"
| "py_str r (PDict kvs) =
     ''{'' @ join '', '' (map (\<lambda>(k, v). r (PStr k) @ '': '' @ r v) kvs) @ ''}''"

text \<open>
  \<^verbatim>\<open>str.lower\<close>, on strings of one-byte characters: the 26 capital letters change, every
  other character stays.
\<close>

definition upper_letters :: string where
  "upper_letters = ''ABCDEFGHIJKLMNOPQRSTUVWXYZ''"

definition lower_letters :: string where
  "lower_letters = ''abcdefghijklmnopqrstuvwxyz''"

definition char_lower :: "char \<Rightarrow> char" where
  "char_lower c = (case map_of (zip upper_letters lower_letters) c of Some l \<Rightarrow> l | None \<Rightarrow> c)"

definition lower :: "string \<Rightarrow> string" where
  "lower s = map char_lower s"

text \<open>The truth value of an object, as \<^verbatim>\<open>if obj:\<close> reads it.\<close>

fun truthy :: "pyval \<Rightarrow> bool" where
  "truthy PNone = False"
| "truthy (PBool b) = b"
| "truthy (PInt i) = (i \<noteq> 0)"
| "truthy (PStr s) = (s \<noteq> [])"
| "truthy (PList xs) = (xs \<noteq> [])"
| "truthy (PDict kvs) = (kvs \<noteq> [])"

fun isdict :: "pyval \<Rightarrow> bool" where
  "isdict (PDict kvs) = True"
| "isdict v = False"

text \<open>\<^verbatim>\<open>isinstance(v, dict) and k in v\<close>, and \<^verbatim>\<open>v[k]\<close> where it holds.\<close>

fun dict_has :: "pyval \<Rightarrow> string \<Rightarrow> bool" where
  "dict_has (PDict kvs) k = (map_of kvs k \<noteq> None)"
| "dict_has v k = False"

fun dict_item :: "pyval \<Rightarrow> string \<Rightarrow> pyval" where
  "dict_item (PDict kvs) k = (case map_of kvs k of Some v \<Rightarrow> v | None \<Rightarrow> PNone)"
| "dict_item v k = PNone"

text \<open>\<^verbatim>\<open>state.update(res)\<close> for a dictionary \<open>res\<close>: its entries are written over the state's.\<close>

fun merge_into :: "pystate \<Rightarrow> pyval \<Rightarrow> pystate" where
  "merge_into st (PDict kvs) = st ++ map_of kvs"
| "merge_into st v = st"

text \<open>\<^verbatim>\<open>d.get(k)\<close> on a \<^verbatim>\<open>Dict[str, str]\<close>: the value, or \<^verbatim>\<open>None\<close>.\<close>

definition branch_get :: "(string \<times> string) list \<Rightarrow> string \<Rightarrow> pyval" where
  "branch_get d k = (case map_of d k of Some t \<Rightarrow> PStr t | None \<Rightarrow> PNone)"

text \<open>\<^verbatim>\<open>state.get(k, None)\<close>.\<close>

definition state_get :: "pystate \<Rightarrow> string \<Rightarrow> pyval" where
  "state_get st k = (case st k of Some v \<Rightarrow> v | None \<Rightarrow> PNone)"

section \<open>Data structures\<close>

text \<open>
  \<^verbatim>\<open>NodeDef.next\<close> is \<^verbatim>\<open>Optional[Union[str, Dict[str, str]]]\<close>: a single target or a
  branch mapping.
\<close>

datatype edge =
    Direct string
  | Branch "(string \<times> string) list"

record NodeDef =
  key :: string
  fn_name :: "string option"
  next_edge :: "edge option"
  meta :: "string \<rightharpoonup> pyval"

text \<open>A \<^verbatim>\<open>UUID\<close> is kept as its text.\<close>

record GraphDef =
  graph_id :: string
  nodes :: "string \<rightharpoonup> NodeDef"
  entry :: string

text \<open>
  \<^verbatim>\<open>log_queue\<close> is an unbounded \<^verbatim>\<open>asyncio.Queue\<close>: a FIFO of the items put so far,
  \<open>Some msg\<close> for a log line and \<open>None\<close> for the end-of-stream marker. \<^verbatim>\<open>current_node\<close>
  receives whatever the loop's \<^verbatim>\<open>node_key\<close> holds.
\<close>

record RunState =
  run_id :: string
  run_graph_id :: string
  current_node :: pyval
  state :: pystate
  status :: string
  logs :: "string list"
  log_queue :: "string option list"

text \<open>
  What the engine reads from outside its own module: the two registries
  (\<^verbatim>\<open>tools\<close>, \<^verbatim>\<open>NODE_FUNCS\<close>), and Python's built-ins \<^verbatim>\<open>eval\<close> (on the condition and the
  state, which it may mutate), \<^verbatim>\<open>repr\<close> and \<^verbatim>\<open>traceback.format_exc\<close>.
\<close>

record env =
  tools :: "string \<rightharpoonup> pyfn"
  NODE_FUNCS :: "string \<rightharpoonup> pyfn"
  py_eval :: "pyval \<Rightarrow> pystate \<Rightarrow> pystate \<times> (pyexn + pyval)"
  py_repr :: "pyval \<Rightarrow> string"
  format_exc :: "pyexn \<Rightarrow> string"

section \<open>Internal helpers\<close>

text \<open>
  \<^verbatim>\<open>_call_fn\<close>, lines 68-73. A coroutine function is awaited in place: what it returns or
  raises reaches the caller, except that a \<^verbatim>\<open>StopIteration\<close> leaving a coroutine is turned
  into a \<^verbatim>\<open>RuntimeError\<close> by Python. A plain function runs in the executor, and the engine
  awaits the future of \<^verbatim>\<open>run_in_executor\<close>: what the function returns or raises reaches
  the caller through the future, except a \<^verbatim>\<open>StopIteration\<close>, which an asyncio future refuses
  to hold (CPython 3.11), so the future is never completed and the \<^verbatim>\<open>await\<close> never resumes.
\<close>

definition call_fn :: "pyfn \<Rightarrow> pystate \<Rightarrow> pystate \<times> (abrupt + pyval)" where
  "call_fn fn st =
     (case fn of
        AsyncDef f \<Rightarrow>
          (case f st of
             (st', Inr res) \<Rightarrow> (st', Inr res)
           | (st', Inl (PyException c m)) \<Rightarrow>
               if c = ''StopIteration''
               then (st', Inl (Raised (RuntimeError ''coroutine raised StopIteration'')))
               else (st', Inl (Raised (PyException c m)))
           | (st', Inl (PyBaseException c m)) \<Rightarrow> (st', Inl (Raised (PyBaseException c m))))
      | Def f \<Rightarrow>
          (case f st of
             (st', Inr res) \<Rightarrow> (st', Inr res)
           | (st', Inl (PyException c m)) \<Rightarrow>
               if c = ''StopIteration''
               then (st', Inl Pending)
               else (st', Inl (Raised (PyException c m)))
           | (st', Inl (PyBaseException c m)) \<Rightarrow> (st', Inl (Raised (PyBaseException c m)))))"

text \<open>\<^verbatim>\<open>_emit\<close>: append to the log list and put on the queue (which never refuses).\<close>

definition emit :: "RunState \<Rightarrow> string \<Rightarrow> RunState" where
  "emit rs msg = rs\<lparr>logs := logs rs @ [msg], log_queue := log_queue rs @ [Some msg]\<rparr>"

definition shortrepr :: "env \<Rightarrow> pyval \<Rightarrow> string" where
  "shortrepr e obj =
     (let s = py_str (py_repr e) obj
      in if length s \<le> 400 then s else take 400 s @ ''...'')"

section \<open>The engine\<close>

definition startswith :: "string \<Rightarrow> string \<Rightarrow> bool" where
  "startswith s p = (take (length p) s = p)"

text \<open>\<^verbatim>\<open>s.split(":", 1)[1]\<close>, for a string that holds a colon: what follows the first one.\<close>

definition after_colon :: "string \<Rightarrow> string" where
  "after_colon s = tl (dropWhile (\<lambda>c. c \<noteq> CHR '':'') s)"

text \<open>
  \<^verbatim>\<open>graph.nodes.get(node_key)\<close>: the table's keys are strings, so another hashable key
  finds nothing, and a list or a dictionary is refused as a key.
\<close>

fun nodes_get :: "(string \<rightharpoonup> NodeDef) \<Rightarrow> pyval \<Rightarrow> abrupt + NodeDef option" where
  "nodes_get ns (PStr k) = Inr (ns k)"
| "nodes_get ns (PList xs) = Inl (Raised (TypeError (''unhashable type: '' @ sq @ ''list'' @ sq)))"
| "nodes_get ns (PDict kvs) = Inl (Raised (TypeError (''unhashable type: '' @ sq @ ''dict'' @ sq)))"
| "nodes_get ns v = Inr None"

text \<open>
  Lines 108-133 of \<^verbatim>\<open>execute_graph_run\<close>: run the node's tool or node function and merge
  what it returns. The value is the loop's \<^verbatim>\<open>result\<close>.
\<close>

definition exec_node :: "env \<Rightarrow> NodeDef \<Rightarrow> pyval \<Rightarrow> RunState \<Rightarrow> RunState \<times> (abrupt + pyval)" where
  "exec_node e node_def node_key rs =
     (case fn_name node_def of
        None \<Rightarrow>
          (emit rs (''Node '' @ sq @ py_str (py_repr e) node_key @ sq @ '' has no fn_name; skipping execution.''),
           Inr PNone)
      | Some f \<Rightarrow>
          if f = [] then
            (emit rs (''Node '' @ sq @ py_str (py_repr e) node_key @ sq @ '' has no fn_name; skipping execution.''),
             Inr PNone)
          else if startswith f ''tool:'' then
            (let tname = after_colon f in
             case tools e tname of
               None \<Rightarrow> (rs, Inl (Raised (RuntimeError (''Tool '' @ sq @ tname @ sq @ '' not found''))))
             | Some tool \<Rightarrow>
                 (case call_fn tool (state rs) of
                    (st, Inl ex) \<Rightarrow> (rs\<lparr>state := st\<rparr>, Inl ex)
                  | (st, Inr res) \<Rightarrow>
                      (rs\<lparr>state := (if isdict res then merge_into st res else st)\<rparr>, Inr res)))
          else
            (case NODE_FUNCS e f of
               None \<Rightarrow>
                 (rs, Inl (Raised (RuntimeError (''Node function '' @ sq @ f @ sq @ '' not registered''))))
             | Some fn \<Rightarrow>
                 (case call_fn fn (state rs) of
                    (st, Inl ex) \<Rightarrow> (rs\<lparr>state := st\<rparr>, Inl ex)
                  | (st, Inr res) \<Rightarrow>
                      (rs\<lparr>state := (if isdict res \<and> \<not> dict_has res ''next''
                                      then merge_into st res else st)\<rparr>,
                       Inr res))))"

text \<open>
  Lines 145-164, the static edge: a single key, or a branch chosen by \<^verbatim>\<open>meta["condition"]\<close>
  or, without one, by \<^verbatim>\<open>state["last_condition"]\<close>.
\<close>

definition static_next :: "env \<Rightarrow> NodeDef \<Rightarrow> RunState \<Rightarrow> RunState \<times> (abrupt + pyval)" where
  "static_next e node_def rs =
     (case next_edge node_def of
        None \<Rightarrow> (rs, Inr PNone)
      | Some (Direct t) \<Rightarrow> (rs, Inr (if t = [] then PNone else PStr t))
      | Some (Branch d) \<Rightarrow>
          if d = [] then (rs, Inr PNone)
          else
            (case meta node_def ''condition'' of
               Some cond_expr \<Rightarrow>
                 (case py_eval e cond_expr (state rs) of
                    (st, Inl (PyException c m)) \<Rightarrow>
                      (rs\<lparr>state := st\<rparr>,
                       Inl (Raised (RuntimeError (''Error evaluating condition '' @ sq
                              @ py_str (py_repr e) cond_expr @ sq @ '': '' @ m))))
                  | (st, Inl (PyBaseException c m)) \<Rightarrow>
                      (rs\<lparr>state := st\<rparr>, Inl (Raised (PyBaseException c m)))
                  | (st, Inr cond_val) \<Rightarrow>
                      (rs\<lparr>state := st\<rparr>,
                       Inr (branch_get d (if truthy cond_val then ''true'' else ''false''))))
             | None \<Rightarrow>
                 (let branch_flag = state_get (state rs) ''last_condition'' in
                  if branch_flag = PBool True \<or> lower (py_str (py_repr e) branch_flag) = ''true''
                  then (rs, Inr (branch_get d ''true''))
                  else (rs, Inr (branch_get d ''false'')))))"

text \<open>Lines 137-164: the explicit \<^verbatim>\<open>next\<close> of the result first, the static edge otherwise.\<close>

definition decide_next :: "env \<Rightarrow> NodeDef \<Rightarrow> pyval \<Rightarrow> RunState \<Rightarrow> RunState \<times> (abrupt + pyval)" where
  "decide_next e node_def result rs =
     (if dict_has result ''next'' then
        (let next_node = dict_item result ''next'' in
         (emit rs (''Node returned explicit next: '' @ py_str (py_repr e) next_node), Inr next_node))
      else static_next e node_def rs)"

text \<open>Lines 166-169: the stop request in the state.\<close>

definition stop_check :: "RunState \<Rightarrow> pyval \<Rightarrow> RunState \<times> pyval" where
  "stop_check rs next_node =
     (if state rs ''stop'' = Some (PBool True)
      then (emit rs ''State requested stop -> finishing run.'', PNone)
      else (rs, next_node))"

text \<open>
  One pass through the loop's body (lines 99-172), after \<^verbatim>\<open>visited += 1\<close>: it is left by
  an exception, never gets past an \<^verbatim>\<open>await\<close>, breaks, or ends with the new \<^verbatim>\<open>node_key\<close>.
\<close>

datatype step_result =
    Break
  | Continue pyval

definition run_step :: "env \<Rightarrow> GraphDef \<Rightarrow> pyval \<Rightarrow> RunState \<Rightarrow> RunState \<times> (abrupt + step_result)" where
  "run_step e graph node_key rs =
     (let rs1 = rs\<lparr>current_node := node_key\<rparr> in
      case nodes_get (nodes graph) node_key of
        Inl ex \<Rightarrow> (rs1, Inl ex)
      | Inr None \<Rightarrow>
          (emit rs1 (''Node '' @ sq @ py_str (py_repr e) node_key @ sq @ '' not found. Stopping.''),
           Inr Break)
      | Inr (Some node_def) \<Rightarrow>
          (let rs2 = emit rs1 (''Entering node: '' @ py_str (py_repr e) node_key) in
           case exec_node e node_def node_key rs2 of
             (rs3, Inl ex) \<Rightarrow> (rs3, Inl ex)
           | (rs3, Inr result) \<Rightarrow>
               (let rs4 = emit rs3 (''Node '' @ sq @ py_str (py_repr e) node_key @ sq
                                     @ '' completed. result='' @ shortrepr e result) in
                case decide_next e node_def result rs4 of
                  (rs5, Inl ex) \<Rightarrow> (rs5, Inl ex)
                | (rs5, Inr next_node) \<Rightarrow>
                    (case stop_check rs5 next_node of
                       (rs6, next_node') \<Rightarrow> (rs6, Inr (Continue next_node'))))))"

definition MAX_STEPS :: nat where
  "MAX_STEPS = 1000"

text \<open>
  The \<^verbatim>\<open>while\<close> loop of lines 98-172. It ends with the loop's variables \<^verbatim>\<open>node_key\<close> and
  \<^verbatim>\<open>visited\<close>, or with the exception that left it, or it never ends.
\<close>

function execute_loop ::
  "env \<Rightarrow> GraphDef \<Rightarrow> pyval \<Rightarrow> nat \<Rightarrow> RunState \<Rightarrow> RunState \<times> (abrupt + pyval \<times> nat)" where
  "execute_loop e graph node_key visited rs =
     (if node_key \<noteq> PNone \<and> visited < MAX_STEPS then
        (case run_step e graph node_key rs of
           (rs', Inl ex) \<Rightarrow> (rs', Inl ex)
         | (rs', Inr Break) \<Rightarrow> (rs', Inr (node_key, Suc visited))
         | (rs', Inr (Continue next_node)) \<Rightarrow> execute_loop e graph next_node (Suc visited) rs')
      else (rs, Inr (node_key, visited)))"
  by pat_completeness auto
termination
  by (relation "measure (\<lambda>(e, graph, node_key, visited, rs). MAX_STEPS - visited)") auto

declare execute_loop.simps [simp del]

text \<open>
  Lines 174-179, after the loop: the test of \<^verbatim>\<open>visited\<close> against the bound, which sets the
  status. They are not reached when the loop was left by an exception or never ended.
\<close>

definition after_loop :: "RunState \<times> (abrupt + pyval \<times> nat) \<Rightarrow> RunState \<times> (abrupt + unit)" where
  "after_loop r =
     (case r of
        (rs, Inl ex) \<Rightarrow> (rs, Inl ex)
      | (rs, Inr (node_key, visited)) \<Rightarrow>
          if visited \<ge> MAX_STEPS then
            ((emit rs (''Max steps '' @ str_nat MAX_STEPS @ '' reached, aborting.''))
               \<lparr>status := ''FAILED''\<rparr>,
             Inr ())
          else
            (let rs' = rs\<lparr>status := ''DONE''\<rparr>
             in (emit rs' (''Run finished. status='' @ status rs'), Inr ())))"

text \<open>
  Lines 181-190: \<^verbatim>\<open>except Exception\<close> and \<^verbatim>\<open>finally\<close>, which run when the body of the
  \<^verbatim>\<open>try\<close> ends or is left by an exception, and not while it waits. The value is the run
  state and how the coroutine ends: \<open>None\<close> when it returns, the exception that propagates
  to the caller, or \<open>Pending\<close> when it never ends.
\<close>

definition finish :: "env \<Rightarrow> RunState \<times> (abrupt + unit) \<Rightarrow> RunState \<times> abrupt option" where
  "finish e r =
     (case r of
        (rs, Inr u) \<Rightarrow> (rs\<lparr>log_queue := log_queue rs @ [None]\<rparr>, None)
      | (rs, Inl (Raised (PyException c m))) \<Rightarrow>
          (let tb = format_exc e (PyException c m);
               rs' = (emit rs (''Execution failed: '' @ m @ nl @ tb))\<lparr>status := ''FAILED''\<rparr>
           in (rs'\<lparr>log_queue := log_queue rs' @ [None]\<rparr>, None))
      | (rs, Inl (Raised (PyBaseException c m))) \<Rightarrow>
          (rs\<lparr>log_queue := log_queue rs @ [None]\<rparr>, Some (Raised (PyBaseException c m)))
      | (rs, Inl Pending) \<Rightarrow> (rs, Some Pending))"

text \<open>
  The rest of a run from a point of the loop where \<^verbatim>\<open>node_key\<close> and \<^verbatim>\<open>visited\<close> have the
  given values: the remaining passes, then lines 174-190.
\<close>

definition run_from :: "env \<Rightarrow> GraphDef \<Rightarrow> pyval \<Rightarrow> nat \<Rightarrow> RunState \<Rightarrow> RunState \<times> abrupt option" where
  "run_from e graph node_key visited rs =
     finish e (after_loop (execute_loop e graph node_key visited rs))"

text \<open>\<^verbatim>\<open>execute_graph_run\<close>, lines 91-190.\<close>

definition execute_graph_run :: "env \<Rightarrow> GraphDef \<Rightarrow> RunState \<Rightarrow> RunState \<times> abrupt option" where
  "execute_graph_run e graph run_state =
     (let rs0 = emit (run_state\<lparr>status := ''RUNNING''\<rparr>)
                  (''Run started for graph '' @ graph_id graph @ '', entry='' @ entry graph)
      in run_from e graph (PStr (entry graph)) 0 rs0)"

text \<open>
  \<^verbatim>\<open>run_graph_async\<close>, lines 218-226, on the stores \<^verbatim>\<open>GRAPHS\<close> and \<^verbatim>\<open>RUNS\<close>; \<open>new_id\<close> is
  what \<^verbatim>\<open>uuid4()\<close> returns. The run it records is \<open>new_run\<close>, with the dataclass's
  defaults; the task it schedules is \<open>execute_graph_run\<close> on that run.
\<close>

definition new_run :: "string \<Rightarrow> string \<Rightarrow> pystate \<Rightarrow> RunState" where
  "new_run rid gid initial_state =
     \<lparr>run_id = rid, run_graph_id = gid, current_node = PNone, state = initial_state,
      status = ''PENDING'', logs = [], log_queue = []\<rparr>"

definition run_graph_async ::
  "(string \<rightharpoonup> GraphDef) \<Rightarrow> (string \<rightharpoonup> RunState) \<Rightarrow> string \<Rightarrow> string \<Rightarrow> pystate
     \<Rightarrow> pyexn + (string \<rightharpoonup> RunState) \<times> string" where
  "run_graph_async GRAPHS RUNS new_id gid initial_state =
     (case GRAPHS gid of
        None \<Rightarrow> Inl (PyException ''KeyError'' ''Graph not found'')
      | Some graph \<Rightarrow> Inr (RUNS(new_id \<mapsto> new_run new_id gid initial_state), new_id))"

text \<open>
  \<^verbatim>\<open>websocket_logs\<close> of \<^verbatim>\<open>main.py\<close>, lines 124-135: what the loop sends for the items it
  gets from the queue, in order. On an empty queue \<^verbatim>\<open>q.get()\<close> waits.
\<close>

datatype ws_message =
    LogMessage string
  | DoneEvent

fun websocket_logs :: "string option list \<Rightarrow> ws_message list" where
  "websocket_logs [] = []"
| "websocket_logs (None # q) = [DoneEvent]"
| "websocket_logs (Some msg # q) = LogMessage msg # websocket_logs q"

text \<open>
  The log lines a stretch of the run adds: \<open>rs'\<close> has the log list and the queue of \<open>rs\<close>
  with the same new lines at the end of both.
\<close>

definition emitted :: "RunState \<Rightarrow> RunState \<Rightarrow> bool" where
  "emitted rs rs' \<longleftrightarrow>
     (\<exists>ms. logs rs' = logs rs @ ms \<and> log_queue rs' = log_queue rs @ map Some ms)"

section \<open>The log queue between the run and its subscribers\<close>

text \<open>
  The run puts items on \<^verbatim>\<open>log_queue\<close> in program order. Every websocket connection to the
  run executes the loop of \<^verbatim>\<open>websocket_logs\<close> (\<^verbatim>\<open>main.py\<close>, lines 124-135) on that same
  queue, and a \<^verbatim>\<open>q.get()\<close> removes the item it returns. The tasks take turns in any order.
  A \<open>Channel\<close> holds the items the run has yet to put, the queue, and for each subscriber
  what it has been sent and whether its loop has ended. A \<^verbatim>\<open>get\<close> needs an item in the
  queue.
\<close>

datatype channel =
  Channel "string option list" "string option list" "(ws_message list \<times> bool) list"

inductive channel_step :: "channel \<Rightarrow> channel \<Rightarrow> bool" where
  put: "channel_step (Channel (x # todo) q subs) (Channel todo (q @ [x]) subs)"
| get_log: "i < length subs \<Longrightarrow> subs ! i = (sent, False) \<Longrightarrow>
     channel_step (Channel todo (Some msg # q) subs)
                  (Channel todo q (subs[i := (sent @ [LogMessage msg], False)]))"
| get_done: "i < length subs \<Longrightarrow> subs ! i = (sent, False) \<Longrightarrow>
     channel_step (Channel todo (None # q) subs)
                  (Channel todo q (subs[i := (sent @ [DoneEvent], True)]))"

text \<open>
  With one subscriber: what it has been sent, followed by what it will be sent for the
  items still in the queue or yet to be put.
\<close>

fun delivered :: "channel \<Rightarrow> ws_message list" where
  "delivered (Channel todo q [(sent, closed)]) =
     (if closed then sent else sent @ websocket_logs (q @ todo))"
| "delivered (Channel todo q subs) = []"

section \<open>Objects and references: the copy made by \<^verbatim>\<open>run_graph_async\<close>\<close>

text \<open>
  The definitions above pass dictionaries by value. Whether the caller's dictionary can change
  under the run depends on which objects are shared, so \<^verbatim>\<open>initial_state.copy()\<close> (line 223)
  is modelled a second time on a store of objects: an address is an index into the store,
  an entry of a dictionary or a list is an immediate value or a reference to an object.
\<close>

type_synonym addr = nat

datatype hval =
    HNone
  | HBool bool
  | HInt int
  | HStr string
  | HRef addr

datatype hobj =
    HDict "(string \<times> hval) list"
  | HList "hval list"

type_synonym heap = "hobj list"

definition heap_get :: "heap \<Rightarrow> addr \<Rightarrow> hobj option" where
  "heap_get h a = (if a < length h then Some (h ! a) else None)"

text \<open>\<^verbatim>\<open>d.copy()\<close>: a new dictionary object with the entries of \<open>d\<close>, values and references as they are.\<close>

definition dict_copy :: "heap \<Rightarrow> addr \<Rightarrow> (heap \<times> addr) option" where
  "dict_copy h a =
     (case heap_get h a of
        Some (HDict kvs) \<Rightarrow> Some (h @ [HDict kvs], length h)
      | _ \<Rightarrow> None)"

text \<open>
  \<^verbatim>\<open>run_graph_async\<close> on the store: \<open>initial_state\<close> is the address of the caller's
  dictionary, and the address returned is that of the new run's \<^verbatim>\<open>state\<close>.
\<close>

definition run_graph_async_store ::
  "(string \<rightharpoonup> GraphDef) \<Rightarrow> heap \<Rightarrow> string \<Rightarrow> addr \<Rightarrow> pyexn + heap \<times> addr" where
  "run_graph_async_store GRAPHS h gid initial_state =
     (case GRAPHS gid of
        None \<Rightarrow> Inl (PyException ''KeyError'' ''Graph not found'')
      | Some graph \<Rightarrow>
          (case dict_copy h initial_state of
             None \<Rightarrow> Inl (PyException ''AttributeError'' ''copy'')
           | Some (h', s) \<Rightarrow> Inr (h', s)))"

text \<open>
  In-place mutations of an object: \<^verbatim>\<open>d[k] = v\<close>, \<^verbatim>\<open>del d[k]\<close>, \<^verbatim>\<open>d.update(new)\<close> (what the engine
  does to the run's state) and \<^verbatim>\<open>l.append(v)\<close>. One that Python refuses (wrong kind of
  object at the address) changes nothing.
\<close>

datatype mutation =
    SetItem addr string hval
  | DelItem addr string
  | Update addr "(string \<times> hval) list"
  | Append addr hval

fun target :: "mutation \<Rightarrow> addr" where
  "target (SetItem a k v) = a"
| "target (DelItem a k) = a"
| "target (Update a kvs) = a"
| "target (Append a v) = a"

fun dict_set :: "(string \<times> hval) list \<Rightarrow> string \<Rightarrow> hval \<Rightarrow> (string \<times> hval) list" where
  "dict_set [] k v = [(k, v)]"
| "dict_set ((k', v') # kvs) k v =
     (if k' = k then (k, v) # kvs else (k', v') # dict_set kvs k v)"

fun apply_mutation :: "heap \<Rightarrow> mutation \<Rightarrow> heap" where
  "apply_mutation h (SetItem a k v) =
     (case heap_get h a of Some (HDict kvs) \<Rightarrow> h[a := HDict (dict_set kvs k v)] | _ \<Rightarrow> h)"
| "apply_mutation h (DelItem a k) =
     (case heap_get h a of
        Some (HDict kvs) \<Rightarrow> h[a := HDict (filter (\<lambda>(k', v'). k' \<noteq> k) kvs)]
      | _ \<Rightarrow> h)"
| "apply_mutation h (Update a new) =
     (case heap_get h a of
        Some (HDict kvs) \<Rightarrow> h[a := HDict (foldl (\<lambda>d (k, v). dict_set d k v) kvs new)]
      | _ \<Rightarrow> h)"
| "apply_mutation h (Append a v) =
     (case heap_get h a of Some (HList xs) \<Rightarrow> h[a := HList (xs @ [v])] | _ \<Rightarrow> h)"

definition apply_all :: "heap \<Rightarrow> mutation list \<Rightarrow> heap" where
  "apply_all h ms = foldl apply_mutation h ms"

text \<open>
  The value a reference denotes, read through the store to the given depth: what the caller
  sees when it inspects its dictionary.
\<close>

fun reify :: "nat \<Rightarrow> heap \<Rightarrow> hval \<Rightarrow> pyval option" where
  "reify n h HNone = Some PNone"
| "reify n h (HBool b) = Some (PBool b)"
| "reify n h (HInt i) = Some (PInt i)"
| "reify n h (HStr s) = Some (PStr s)"
| "reify 0 h (HRef a) = None"
| "reify (Suc n) h (HRef a) =
     (case heap_get h a of
        None \<Rightarrow> None
      | Some (HList xs) \<Rightarrow> map_option PList (those (map (reify n h) xs))
      | Some (HDict kvs) \<Rightarrow>
          map_option PDict (those (map (\<lambda>(k, v). map_option (Pair k) (reify n h v)) kvs)))"

section \<open>Example registries, graphs and runs\<close>

text \<open>Concrete inputs, on which the theorems below are evaluated.\<close>

definition demo_env :: env where
  "demo_env = \<lparr>tools = Map.empty, NODE_FUNCS = Map.empty,
     py_eval = (\<lambda>c st. (st, Inr (PBool False))), py_repr = py_str (\<lambda>v. []),
     format_exc = (\<lambda>ex. ''Traceback (most recent call last):'')\<rparr>"

definition fresh_run :: "pystate \<Rightarrow> RunState" where
  "fresh_run st = new_run ''r1'' ''g1'' st"


definition loop_graph :: GraphDef where
  "loop_graph = \<lparr>graph_id = ''g1'',
     nodes = [''a'' \<mapsto> \<lparr>key = ''a'', fn_name = None, next_edge = Some (Direct ''a''), meta = Map.empty\<rparr>],
     entry = ''a''\<rparr>"

definition missing_tool_graph :: GraphDef where
  "missing_tool_graph = \<lparr>graph_id = ''g1'',
     nodes = [''a'' \<mapsto> \<lparr>key = ''a'', fn_name = Some ''tool:nope'', next_edge = Some (Direct ''b''),
                          meta = Map.empty\<rparr>],
     entry = ''a''\<rparr>"

text \<open>
  A function that returns a control directive with one more entry,
  \<^verbatim>\<open>{"x": 1, "next": "B"}\<close>, and leaves the state alone; it is registered both as the tool
  \<^verbatim>\<open>t\<close> and as the node function \<^verbatim>\<open>f\<close>.
\<close>

definition directive :: callable where
  "directive st = (st, Inr (PDict [(''x'', PInt 1), (''next'', PStr ''B'')]))"

definition directive_env :: env where
  "directive_env =
     demo_env\<lparr>tools := [''t'' \<mapsto> Def directive], NODE_FUNCS := [''f'' \<mapsto> Def directive]\<rparr>"

definition tool_graph :: GraphDef where
  "tool_graph = \<lparr>graph_id = ''g1'',
     nodes = [''A'' \<mapsto> \<lparr>key = ''A'', fn_name = Some ''tool:t'', next_edge = Some (Direct ''C''),
                          meta = Map.empty\<rparr>],
     entry = ''A''\<rparr>"

definition node_fn_graph :: GraphDef where
  "node_fn_graph = \<lparr>graph_id = ''g1'',
     nodes = [''A'' \<mapsto> \<lparr>key = ''A'', fn_name = Some ''f'', next_edge = Some (Direct ''C''),
                          meta = Map.empty\<rparr>],
     entry = ''A''\<rparr>"

text \<open>
  A graph of one node \<^verbatim>\<open>a\<close> with no edge, whose node function counts its calls in
  \<^verbatim>\<open>state["n"]\<close>: it returns \<^verbatim>\<open>{"next": "a"}\<close> on each call before the \<open>K\<close>-th and the value
  \<open>final\<close> from then on. In Python:
  \<^verbatim>\<open>state["n"] = state.get("n", 0) + 1; return {"next": "a"} if state["n"] < K else final\<close>.
\<close>

text \<open>\<^verbatim>\<open>state.get("n", 0)\<close>, for a state whose \<^verbatim>\<open>n\<close> is an integer when it is set.\<close>

definition count_of :: "pystate \<Rightarrow> int" where
  "count_of st = (case st ''n'' of Some (PInt i) \<Rightarrow> i | _ \<Rightarrow> 0)"

definition counter :: "nat \<Rightarrow> pyval \<Rightarrow> callable" where
  "counter K final st =
     (let n = count_of st + 1
      in (st(''n'' \<mapsto> PInt n), Inr (if n < int K then PDict [(''next'', PStr ''a'')] else final)))"

definition counter_env :: "nat \<Rightarrow> pyval \<Rightarrow> env" where
  "counter_env K final = demo_env\<lparr>NODE_FUNCS := [''count'' \<mapsto> Def (counter K final)]\<rparr>"

definition counter_graph :: GraphDef where
  "counter_graph = \<lparr>graph_id = ''g1'',
     nodes = [''a'' \<mapsto> \<lparr>key = ''a'', fn_name = Some ''count'', next_edge = None, meta = Map.empty\<rparr>],
     entry = ''a''\<rparr>"

text \<open>The next key a node with no edge gets from the result \<open>res\<close>.\<close>

definition next_of :: "pyval \<Rightarrow> pyval" where
  "next_of res = (if dict_has res ''next'' then dict_item res ''next'' else PNone)"





text \<open>Scenario 1 of the specification: one node, no function, no edge.\<close>

definition single_node_graph :: GraphDef where
  "single_node_graph = \<lparr>graph_id = ''g1'',
     nodes = [''start'' \<mapsto> \<lparr>key = ''start'', fn_name = None, next_edge = None, meta = Map.empty\<rparr>],
     entry = ''start''\<rparr>"

text \<open>
  A caller's initial state \<^verbatim>\<open>{"xs": []}\<close>, the dictionary at address 0 and the list at
  address 1; and a node function's \<^verbatim>\<open>state["xs"].append(1)\<close> on the state at address \<open>s\<close>.
\<close>

definition nested_heap :: heap where
  "nested_heap = [HDict [(''xs'', HRef 1)], HList []]"

definition append_to_xs :: "heap \<Rightarrow> addr \<Rightarrow> heap" where
  "append_to_xs h s =
     (case heap_get h s of
        Some (HDict kvs) \<Rightarrow>
          (case map_of kvs ''xs'' of
             Some (HRef l) \<Rightarrow> apply_mutation h (Append l (HInt 1))
           | _ \<Rightarrow> h)
      | _ \<Rightarrow> h)"

section \<open>Properties of \<^verbatim>\<open>str\<close> and \<^verbatim>\<open>str.lower\<close>\<close>







section \<open>Next-node resolution\<close>




lemma branch_get_absent: "map_of d k = None \<Longrightarrow> branch_get d k = PNone"
  by (simp add: branch_get_def)

section \<open>The loop, one pass at a time\<close>

lemma emit_fields [simp]:
  "state (emit rs m) = state rs"
  "status (emit rs m) = status rs"
  "current_node (emit rs m) = current_node rs"
  "logs (emit rs m) = logs rs @ [m]"
  "log_queue (emit rs m) = log_queue rs @ [Some m]"
  by (simp_all add: emit_def)

lemma stop_check_stop:
  assumes "stop_check rs k = (rs', k')" and "state rs' ''stop'' = Some (PBool True)"
  shows "k' = PNone \<and> rs' = emit rs ''State requested stop -> finishing run.''"
  using assms by (auto simp: stop_check_def split: if_splits)

lemma run_step_stop:
  assumes "run_step e graph node_key rs = (rs', Inr (Continue k))"
    and "state rs' ''stop'' = Some (PBool True)"
  shows "k = PNone \<and> last (logs rs') = ''State requested stop -> finishing run.''"
proof -
  from assms(1) obtain rs5 k5 where "stop_check rs5 k5 = (rs', k)"
    unfolding run_step_def Let_def
    by (auto split: sum.splits option.splits prod.splits)
  from stop_check_stop[OF this assms(2)] show ?thesis by simp
qed

lemma execute_loop_step:
  assumes "node_key \<noteq> PNone" and "visited < MAX_STEPS"
  shows "execute_loop e graph node_key visited rs =
     (case run_step e graph node_key rs of
        (rs', Inl ex) \<Rightarrow> (rs', Inl ex)
      | (rs', Inr Break) \<Rightarrow> (rs', Inr (node_key, Suc visited))
      | (rs', Inr (Continue next_node)) \<Rightarrow> execute_loop e graph next_node (Suc visited) rs')"
  using assms by (subst execute_loop.simps) simp

lemma execute_loop_exit:
  "node_key = PNone \<or> MAX_STEPS \<le> visited \<Longrightarrow>
     execute_loop e graph node_key visited rs = (rs, Inr (node_key, visited))"
  by (subst execute_loop.simps) auto

text \<open>
  C6. When a pass of the loop leaves the state with \<^verbatim>\<open>stop\<close> set to the boolean \<^verbatim>\<open>True\<close>,
  the loop runs no further pass: it ends in the run state that pass left. If the pass reached
  its end (no exception, no missing node), the next key it computed is \<^verbatim>\<open>None\<close>, whatever
  the result's \<^verbatim>\<open>next\<close> or the node's edge said, and the last log line is the stop notice.
\<close>

theorem stop_law:
  assumes "node_key \<noteq> PNone" and "visited < MAX_STEPS"
    and "run_step e graph node_key rs = (rs', r)"
    and "state rs' ''stop'' = Some (PBool True)"
  shows "execute_loop e graph node_key visited rs =
           (rs', case r of
                   Inl ex \<Rightarrow> Inl ex
                 | Inr Break \<Rightarrow> Inr (node_key, Suc visited)
                 | Inr (Continue k) \<Rightarrow> Inr (PNone, Suc visited))
         \<and> (case r of
               Inr (Continue k) \<Rightarrow>
                 k = PNone \<and> last (logs rs') = ''State requested stop -> finishing run.''
             | _ \<Rightarrow> True)"
proof (cases r)
  case (Inl ex)
  with assms show ?thesis by (simp add: execute_loop_step)
next
  case (Inr sr)
  show ?thesis
  proof (cases sr)
    case Break
    with Inr assms show ?thesis by (simp add: execute_loop_step)
  next
    case (Continue k)
    with Inr assms(3,4) have k: "k = PNone"
      and l: "last (logs rs') = ''State requested stop -> finishing run.''"
      using run_step_stop by blast+
    from assms Inr Continue k l show ?thesis
      by (simp add: execute_loop_step execute_loop_exit)
  qed
qed

theorem stop_law_witness:
  "snd (execute_loop demo_env loop_graph (PStr ''a'') 0 (fresh_run [''stop'' \<mapsto> PBool True]))
     = Inr (PNone, Suc 0)
   \<and> state (fst (execute_loop demo_env loop_graph (PStr ''a'') 0
                   (fresh_run [''stop'' \<mapsto> PBool True]))) ''stop'' = Some (PBool True)
   \<and> last (logs (fst (execute_loop demo_env loop_graph (PStr ''a'') 0
                   (fresh_run [''stop'' \<mapsto> PBool True]))))
       = ''State requested stop -> finishing run.''"
proof -
  let ?rs = "fresh_run [''stop'' \<mapsto> PBool True]"
  obtain rs' where step: "run_step demo_env loop_graph (PStr ''a'') ?rs = (rs', Inr (Continue PNone))"
    and stop: "state rs' ''stop'' = Some (PBool True)"
    by (simp add: run_step_def loop_graph_def exec_node_def decide_next_def static_next_def
          stop_check_def fresh_run_def new_run_def)
  have "PStr ''a'' \<noteq> PNone" and "0 < MAX_STEPS" by (simp_all add: MAX_STEPS_def)
  from stop_law [OF this step stop] stop show ?thesis by simp
qed

section \<open>Unregistered functions\<close>

lemma exec_node_unregistered:
  assumes "fn_name nd = Some f" and "f \<noteq> []"
    and "(if startswith f ''tool:'' then tools e (after_colon f) else NODE_FUNCS e f) = None"
  shows "exec_node e nd k rs =
     (rs, Inl (Raised (RuntimeError
        (if startswith f ''tool:'' then ''Tool '' @ sq @ after_colon f @ sq @ '' not found''
         else ''Node function '' @ sq @ f @ sq @ '' not registered''))))"
  using assms by (auto simp: exec_node_def Let_def split: if_splits)

text \<open>
  C7. At any pass of the loop whose node names a tool absent from \<^verbatim>\<open>tools\<close>, or a node
  function absent from \<^verbatim>\<open>NODE_FUNCS\<close>, the run ends there: the final run state has status
  \<^verbatim>\<open>FAILED\<close>, that node as current node, and exactly two more log lines, the entering line
  and the failure line, which names the missing tool or function; then the end marker.
\<close>

theorem unregistered_function_fatal:
  assumes "visited < MAX_STEPS"
    and "nodes graph k = Some nd" and "fn_name nd = Some f" and "f \<noteq> []"
    and "(if startswith f ''tool:'' then tools e (after_colon f) else NODE_FUNCS e f) = None"
  shows "run_from e graph (PStr k) visited rs =
     (let msg = (if startswith f ''tool:'' then ''Tool '' @ sq @ after_colon f @ sq @ '' not found''
                 else ''Node function '' @ sq @ f @ sq @ '' not registered'');
          line = ''Execution failed: '' @ msg @ nl @ format_exc e (RuntimeError msg)
      in (rs\<lparr>current_node := PStr k, status := ''FAILED'',
             logs := logs rs @ [''Entering node: '' @ k, line],
             log_queue := log_queue rs @ [Some (''Entering node: '' @ k), Some line, None]\<rparr>,
          None))"
proof -
  let ?rs2 = "emit (rs\<lparr>current_node := PStr k\<rparr>) (''Entering node: '' @ k)"
  let ?msg = "if startswith f ''tool:'' then ''Tool '' @ sq @ after_colon f @ sq @ '' not found''
                 else ''Node function '' @ sq @ f @ sq @ '' not registered''"
  have step: "run_step e graph (PStr k) rs = (?rs2, Inl (Raised (RuntimeError ?msg)))"
    using assms(2) exec_node_unregistered[OF assms(3,4,5), of "PStr k" ?rs2]
    by (simp add: run_step_def Let_def)
  have loop: "execute_loop e graph (PStr k) visited rs = (?rs2, Inl (Raised (RuntimeError ?msg)))"
    using assms(1) step by (simp add: execute_loop_step)
  show ?thesis
    unfolding run_from_def loop
    by (simp add: after_loop_def finish_def RuntimeError_def Let_def emit_def)
qed

theorem unregistered_function_fatal_witness:
  "run_from demo_env missing_tool_graph (PStr ''a'') 0 (fresh_run Map.empty) =
     ((fresh_run Map.empty)\<lparr>current_node := PStr ''a'', status := ''FAILED'',
        logs := [''Entering node: a'',
                 ''Execution failed: Tool '' @ sq @ ''nope'' @ sq @ '' not found'' @ nl
                   @ ''Traceback (most recent call last):''],
        log_queue := [Some ''Entering node: a'',
                 Some (''Execution failed: Tool '' @ sq @ ''nope'' @ sq @ '' not found'' @ nl
                   @ ''Traceback (most recent call last):''), None]\<rparr>, None)"
  using unregistered_function_fatal [of 0 missing_tool_graph "''a''"
          "\<lparr>key = ''a'', fn_name = Some ''tool:nope'', next_edge = Some (Direct ''b''), meta = Map.empty\<rparr>"
          "''tool:nope''" demo_env "fresh_run Map.empty"]
  by (simp add: MAX_STEPS_def missing_tool_graph_def demo_env_def startswith_def after_colon_def
        fresh_run_def new_run_def Let_def RuntimeError_def)

section \<open>The fallback branch of a pass\<close>



section \<open>Log list and log queue\<close>

lemma emitted_refl [simp]: "emitted rs rs"
  by (simp add: emitted_def)

lemma emitted_trans: "emitted a b \<Longrightarrow> emitted b c \<Longrightarrow> emitted a c"
  unfolding emitted_def by (metis append.assoc map_append)

lemma emitted_emit: "emitted rs rs' \<Longrightarrow> emitted rs (emit rs' m)"
  unfolding emitted_def by (metis append.assoc emit_fields(4,5) list.simps(8,9) map_append)

lemma emitted_fields [simp]:
  "emitted rs (rs'\<lparr>state := st\<rparr>) = emitted rs rs'"
  "emitted rs (rs'\<lparr>status := s\<rparr>) = emitted rs rs'"
  "emitted rs (rs'\<lparr>current_node := k\<rparr>) = emitted rs rs'"
  by (simp_all add: emitted_def)

lemma exec_node_emitted: "exec_node e nd k rs = (rs', r) \<Longrightarrow> emitted rs rs'"
  unfolding exec_node_def Let_def
  by (auto split: option.splits if_splits prod.splits sum.splits intro!: emitted_emit)

lemma static_next_emitted: "static_next e nd rs = (rs', r) \<Longrightarrow> emitted rs rs'"
  unfolding static_next_def Let_def
  by (auto split: option.splits edge.splits if_splits prod.splits sum.splits pyexn.splits)

lemma decide_next_emitted: "decide_next e nd res rs = (rs', r) \<Longrightarrow> emitted rs rs'"
  unfolding decide_next_def Let_def
  by (auto split: if_splits dest: static_next_emitted intro!: emitted_emit)

lemma stop_check_emitted: "stop_check rs k = (rs', k') \<Longrightarrow> emitted rs rs'"
  unfolding stop_check_def by (auto split: if_splits intro!: emitted_emit)

lemma run_step_emitted:
  assumes "run_step e graph k rs = (rs', r)"
  shows "emitted rs rs'"
proof (cases "nodes_get (nodes graph) k")
  case (Inl ex)
  with assms show ?thesis by (auto simp: run_step_def)
next
  case (Inr nd_opt)
  show ?thesis
  proof (cases nd_opt)
    case None
    with Inr assms show ?thesis by (auto simp: run_step_def intro!: emitted_emit)
  next
    case (Some nd)
    let ?rs2 = "emit (rs\<lparr>current_node := k\<rparr>) (''Entering node: '' @ py_str (py_repr e) k)"
    have e2: "emitted rs ?rs2" by (intro emitted_emit) simp
    obtain rs3 r3 where x: "exec_node e nd k ?rs2 = (rs3, r3)" by force
    from exec_node_emitted[OF x] e2 have e3: "emitted rs rs3" by (rule emitted_trans[rotated])
    show ?thesis
    proof (cases r3)
      case (Inl ex)
      with Inr Some x assms e3 show ?thesis by (auto simp: run_step_def Let_def)
    next
      case (Inr res)
      let ?rs4 = "emit rs3 (''Node '' @ sq @ py_str (py_repr e) k @ sq
                                     @ '' completed. result='' @ shortrepr e res)"
      have e4: "emitted rs ?rs4" using e3 by (rule emitted_emit)
      obtain rs5 r5 where d: "decide_next e nd res ?rs4 = (rs5, r5)" by force
      from decide_next_emitted[OF d] e4 have e5: "emitted rs rs5" by (rule emitted_trans[rotated])
      show ?thesis
      proof (cases r5)
        case (Inl ex)
        with Inr \<open>nodes_get (nodes graph) k = Inr nd_opt\<close> Some x d assms e5 show ?thesis
          by (auto simp: run_step_def Let_def)
      next
        case r5: (Inr nk)
        obtain rs6 k6 where c: "stop_check rs5 nk = (rs6, k6)" by force
        from stop_check_emitted[OF c] e5 have "emitted rs rs6" by (rule emitted_trans[rotated])
        with Inr r5 \<open>nodes_get (nodes graph) k = Inr nd_opt\<close> Some x d c assms show ?thesis
          by (auto simp: run_step_def Let_def)
      qed
    qed
  qed
qed

lemma execute_loop_emitted:
  "execute_loop e graph k v rs = (rs', r) \<Longrightarrow> emitted rs rs'"
proof (induction e graph k v rs arbitrary: rs' r rule: execute_loop.induct)
  case (1 e graph node_key visited rs)
  show ?case
  proof (cases "node_key \<noteq> PNone \<and> visited < MAX_STEPS")
    case False
    with "1.prems" show ?thesis by (subst (asm) execute_loop.simps) auto
  next
    case True
    obtain rs1 r1 where s: "run_step e graph node_key rs = (rs1, r1)" by force
    note e1 = run_step_emitted[OF s]
    show ?thesis
    proof (cases r1)
      case (Inl ex)
      with True s "1.prems" e1 show ?thesis by (subst (asm) execute_loop.simps) auto
    next
      case (Inr sr)
      show ?thesis
      proof (cases sr)
        case Break
        with Inr True s "1.prems" e1 show ?thesis by (subst (asm) execute_loop.simps) auto
      next
        case (Continue nk)
        with Inr True s "1.prems" have "execute_loop e graph nk (Suc visited) rs1 = (rs', r)"
          by (subst (asm) execute_loop.simps) auto
        from "1.IH"[OF True s[symmetric] Inr Continue this] e1 show ?thesis
          by (rule emitted_trans[rotated])
      qed
    qed
  qed
qed

lemma after_loop_emitted: "after_loop (rs, r) = (rs', r') \<Longrightarrow> emitted rs rs'"
  unfolding after_loop_def
  by (auto split: sum.splits prod.splits if_splits intro!: emitted_emit)

lemma finish_queue:
  assumes "finish e (rs, r) = (rs', p)"
  shows "\<exists>ms. logs rs' = logs rs @ ms
           \<and> log_queue rs' = log_queue rs @ map Some ms @ (if p = Some Pending then [] else [None])"
proof (cases r)
  case (Inr u)
  with assms show ?thesis by (auto simp: finish_def)
next
  case (Inl a)
  show ?thesis
  proof (cases a)
    case Pending
    with Inl assms show ?thesis by (auto simp: finish_def)
  next
    case (Raised ex)
    with Inl assms show ?thesis
      by (cases ex) (auto simp: finish_def Let_def)
  qed
qed

lemma finish_pending:
  "finish e (rs, r) = (rs', p) \<Longrightarrow> p = Some Pending \<longleftrightarrow> r = Inl Pending"
  by (auto simp: finish_def Let_def split: sum.splits abrupt.splits pyexn.splits)

lemma run_from_queue:
  "\<exists>ms. logs (fst (run_from e graph k v rs)) = logs rs @ ms
      \<and> log_queue (fst (run_from e graph k v rs))
          = log_queue rs @ map Some ms
              @ (if snd (run_from e graph k v rs) = Some Pending then [] else [None])"
proof -
  obtain rs1 r1 where l: "execute_loop e graph k v rs = (rs1, r1)" by force
  obtain rs2 r2 where a: "after_loop (rs1, r1) = (rs2, r2)" by force
  obtain rs3 p where f: "finish e (rs2, r2) = (rs3, p)" by force
  from execute_loop_emitted[OF l] after_loop_emitted[OF a] have "emitted rs rs2"
    by (rule emitted_trans)
  then obtain ms where ms: "logs rs2 = logs rs @ ms" "log_queue rs2 = log_queue rs @ map Some ms"
    unfolding emitted_def by blast
  from finish_queue[OF f] obtain ms' where
    "logs rs3 = logs rs2 @ ms'"
    "log_queue rs3 = log_queue rs2 @ map Some ms' @ (if p = Some Pending then [] else [None])"
    by blast
  with ms have "logs rs3 = logs rs @ (ms @ ms')"
    "log_queue rs3 = log_queue rs @ map Some (ms @ ms') @ (if p = Some Pending then [] else [None])"
    by simp_all
  moreover have "run_from e graph k v rs = (rs3, p)"
    by (simp add: run_from_def l a f)
  ultimately show ?thesis by (metis fst_conv snd_conv)
qed

lemma execute_graph_run_queue:
  "\<exists>ms. logs (fst (execute_graph_run e graph rs)) = logs rs @ ms
      \<and> log_queue (fst (execute_graph_run e graph rs))
          = log_queue rs @ map Some ms
              @ (if snd (execute_graph_run e graph rs) = Some Pending then [] else [None])"
proof -
  let ?line = "''Run started for graph '' @ graph_id graph @ '', entry='' @ entry graph"
  let ?rs0 = "emit (rs\<lparr>status := ''RUNNING''\<rparr>) ?line"
  let ?r = "run_from e graph (PStr (entry graph)) 0 ?rs0"
  from run_from_queue[of e graph "PStr (entry graph)" 0 ?rs0]
  obtain ms where "logs (fst ?r) = logs ?rs0 @ ms"
    "log_queue (fst ?r) = log_queue ?rs0 @ map Some ms @ (if snd ?r = Some Pending then [] else [None])"
    by blast
  then have "logs (fst ?r) = logs rs @ (?line # ms)"
    "log_queue (fst ?r) = log_queue rs @ map Some (?line # ms)
        @ (if snd ?r = Some Pending then [] else [None])"
    by simp_all
  moreover have "execute_graph_run e graph rs = ?r"
    by (simp add: execute_graph_run_def Let_def)
  ultimately show ?thesis by metis
qed

text \<open>
  Whenever \<^verbatim>\<open>execute_graph_run\<close> ends (the loop ran out, the bound was hit, an exception was
  caught, or one propagates), what it has put on the queue is a sequence of log lines
  followed by one end marker, which is the last item.
\<close>

lemma end_of_stream_when_run_ends:
  assumes "snd (execute_graph_run e graph rs) \<noteq> Some Pending"
  shows "\<exists>ms. log_queue (fst (execute_graph_run e graph rs)) = log_queue rs @ map Some ms @ [None]"
  using execute_graph_run_queue[of e graph rs] assms by auto


lemma websocket_logs_drain:
  "websocket_logs (map Some ms @ None # q) = map LogMessage ms @ [DoneEvent]"
  by (induction ms) simp_all

section \<open>The result's explicit \<^verbatim>\<open>next\<close>\<close>

lemma call_fn_returns: "body fn st = (st', Inr res) \<Longrightarrow> call_fn fn st = (st', Inr res)"
  by (cases fn) (simp_all add: call_fn_def)

lemma exec_node_resolved:
  assumes "fn_name nd = Some f" and "f \<noteq> []"
    and "(if startswith f ''tool:'' then tools e (after_colon f) else NODE_FUNCS e f) = Some fn"
    and "body fn (state rs) = (st, Inr res)"
  shows "exec_node e nd k rs =
     (rs\<lparr>state := (if startswith f ''tool:''
                     then (if isdict res then merge_into st res else st)
                     else (if isdict res \<and> \<not> dict_has res ''next'' then merge_into st res else st))\<rparr>,
      Inr res)"
  using assms call_fn_returns[OF assms(4)]
  by (auto simp: exec_node_def Let_def split: if_splits)

lemma dict_has_isdict: "dict_has res k \<Longrightarrow> isdict res"
  by (cases res) simp_all

text \<open>
  C1, as the code has it. At a pass whose node names a registered tool or node function that
  returns a mapping with a \<^verbatim>\<open>next\<close> entry, the pass ends with that entry's value as the next
  key (or with \<^verbatim>\<open>None\<close> when the state asks to stop). For a node function nothing of the
  mapping is merged: the state is what the function left. For a tool the whole mapping, its
  \<^verbatim>\<open>next\<close> entry included, is merged into the state.
\<close>

theorem explicit_next_directive:
  assumes "nodes graph k = Some nd" and "fn_name nd = Some f" and "f \<noteq> []"
    and "(if startswith f ''tool:'' then tools e (after_colon f) else NODE_FUNCS e f) = Some fn"
    and "body fn (state rs) = (st, Inr res)" and "dict_has res ''next''"
  shows "\<exists>rs'. run_step e graph (PStr k) rs =
            (rs', Inr (Continue (if state rs' ''stop'' = Some (PBool True) then PNone
                                 else dict_item res ''next'')))
          \<and> state rs' = (if startswith f ''tool:'' then merge_into st res else st)"
proof -
  let ?rs2 = "emit (rs\<lparr>current_node := PStr k\<rparr>) (''Entering node: '' @ k)"
  let ?st = "if startswith f ''tool:'' then merge_into st res else st"
  have "body fn (state ?rs2) = (st, Inr res)" using assms(5) by simp
  from exec_node_resolved[OF assms(2,3,4) this, of "PStr k"] assms(6)
  have x: "exec_node e nd (PStr k) ?rs2 = (?rs2\<lparr>state := ?st\<rparr>, Inr res)"
    by (simp add: dict_has_isdict)
  show ?thesis
    using assms(1,6) x
    by (cases "?st ''stop'' = Some (PBool True)")
      (simp_all add: run_step_def Let_def decide_next_def stop_check_def)
qed

theorem explicit_next_directive_witness:
  "(\<exists>rs'. run_step directive_env node_fn_graph (PStr ''A'') (fresh_run [''y'' \<mapsto> PInt 2]) =
            (rs', Inr (Continue (PStr ''B''))) \<and> state rs' = [''y'' \<mapsto> PInt 2])
   \<and> (\<exists>rs'. run_step directive_env tool_graph (PStr ''A'') (fresh_run [''y'' \<mapsto> PInt 2]) =
            (rs', Inr (Continue (PStr ''B'')))
          \<and> state rs' = [''y'' \<mapsto> PInt 2, ''next'' \<mapsto> PStr ''B'', ''x'' \<mapsto> PInt 1])"
proof -
  have a: "\<exists>rs'. run_step directive_env node_fn_graph (PStr ''A'') (fresh_run [''y'' \<mapsto> PInt 2]) =
            (rs', Inr (Continue (PStr ''B''))) \<and> state rs' = [''y'' \<mapsto> PInt 2]"
    using explicit_next_directive [of node_fn_graph "''A''"
        "\<lparr>key = ''A'', fn_name = Some ''f'', next_edge = Some (Direct ''C''), meta = Map.empty\<rparr>"
        "''f''" directive_env "Def directive" "fresh_run [''y'' \<mapsto> PInt 2]" "[''y'' \<mapsto> PInt 2]"
        "PDict [(''x'', PInt 1), (''next'', PStr ''B'')]"]
    by (auto simp: node_fn_graph_def directive_env_def directive_def startswith_def
          fresh_run_def new_run_def)
  have b: "\<exists>rs'. run_step directive_env tool_graph (PStr ''A'') (fresh_run [''y'' \<mapsto> PInt 2]) =
            (rs', Inr (Continue (PStr ''B'')))
          \<and> state rs' = [''y'' \<mapsto> PInt 2, ''next'' \<mapsto> PStr ''B'', ''x'' \<mapsto> PInt 1]"
    using explicit_next_directive [of tool_graph "''A''"
        "\<lparr>key = ''A'', fn_name = Some ''tool:t'', next_edge = Some (Direct ''C''), meta = Map.empty\<rparr>"
        "''tool:t''" directive_env "Def directive" "fresh_run [''y'' \<mapsto> PInt 2]" "[''y'' \<mapsto> PInt 2]"
        "PDict [(''x'', PInt 1), (''next'', PStr ''B'')]"]
    by (auto simp: tool_graph_def directive_env_def directive_def startswith_def after_colon_def
          fresh_run_def new_run_def)
  from a b show ?thesis by blast
qed

text \<open>
  C1 as stated fails for a tool: the tool \<^verbatim>\<open>t\<close> returns \<^verbatim>\<open>{"x": 1, "next": "B"}\<close> without
  touching the state, and after the pass the state, which had no \<^verbatim>\<open>x\<close>, has \<^verbatim>\<open>x = 1\<close>.
\<close>

theorem tool_directive_is_merged:
  "dict_has (PDict [(''x'', PInt 1), (''next'', PStr ''B'')]) ''next''
   \<and> state (fresh_run Map.empty) ''x'' = None
   \<and> directive Map.empty = (Map.empty, Inr (PDict [(''x'', PInt 1), (''next'', PStr ''B'')]))
   \<and> state (fst (run_step directive_env tool_graph (PStr ''A'') (fresh_run Map.empty))) ''x''
       = Some (PInt 1)"
  by (simp add: run_step_def tool_graph_def directive_env_def directive_def demo_env_def
        exec_node_def startswith_def after_colon_def call_fn_def decide_next_def stop_check_def
        fresh_run_def new_run_def Let_def)

section \<open>The step bound\<close>

lemma str_nat_MAX_STEPS: "str_nat MAX_STEPS = ''1000''"
  by (simp add: MAX_STEPS_def str_nat.simps digit_char_def)

lemma counter_step:
  assumes "count_of (state rs) = int v" and "state rs ''stop'' \<noteq> Some (PBool True)"
    and "\<not> isdict final \<or> dict_has final ''next''"
  shows "\<exists>rs'. run_step (counter_env K final) counter_graph (PStr ''a'') rs =
            (rs', Inr (Continue (if Suc v < K then PStr ''a'' else next_of final)))
          \<and> count_of (state rs') = int (Suc v) \<and> state rs' ''stop'' \<noteq> Some (PBool True)"
proof (cases "Suc v < K")
  case True
  with assms(1,2) show ?thesis
    by (simp add: run_step_def counter_graph_def counter_env_def exec_node_def startswith_def
          call_fn_def counter_def decide_next_def stop_check_def Let_def count_of_def)
next
  case False
  show ?thesis
  proof (cases "dict_has final ''next''")
    case True
    with False assms(1,2) show ?thesis
      by (simp add: run_step_def counter_graph_def counter_env_def exec_node_def startswith_def
          call_fn_def counter_def decide_next_def stop_check_def Let_def count_of_def next_of_def)
  next
    case n: False
    with assms(3) have "\<not> isdict final" by simp
    with n False assms(1,2) show ?thesis
      by (simp add: run_step_def counter_graph_def counter_env_def exec_node_def startswith_def
          call_fn_def counter_def decide_next_def static_next_def stop_check_def Let_def
          count_of_def next_of_def)
  qed
qed

lemma counter_loop:
  assumes "v < K" and "K \<le> MAX_STEPS"
    and "count_of (state rs) = int v" and "state rs ''stop'' \<noteq> Some (PBool True)"
    and "\<not> isdict final \<or> dict_has final ''next''"
  shows "\<exists>rs'. execute_loop (counter_env K final) counter_graph (PStr ''a'') v rs =
            execute_loop (counter_env K final) counter_graph (next_of final) K rs'"
  using assms
proof (induction "K - v" arbitrary: v rs)
  case 0
  then show ?case by simp
next
  case (Suc d)
  from counter_step[OF Suc.prems(3,4,5), of K] obtain rs1 where
    step: "run_step (counter_env K final) counter_graph (PStr ''a'') rs =
            (rs1, Inr (Continue (if Suc v < K then PStr ''a'' else next_of final)))"
    and c: "count_of (state rs1) = int (Suc v)" and s: "state rs1 ''stop'' \<noteq> Some (PBool True)"
    by blast
  from Suc.prems have lt: "v < MAX_STEPS" by simp
  have unfold: "execute_loop (counter_env K final) counter_graph (PStr ''a'') v rs =
      execute_loop (counter_env K final) counter_graph
        (if Suc v < K then PStr ''a'' else next_of final) (Suc v) rs1"
    using lt step by (simp add: execute_loop_step)
  show ?case
  proof (cases "Suc v < K")
    case True
    with Suc.hyps have "d = K - Suc v" by simp
    from Suc.hyps(1)[OF this True Suc.prems(2) c s Suc.prems(5)] unfold True
    show ?thesis by simp
  next
    case False
    with Suc.prems(1) have "Suc v = K" by simp
    with unfold False show ?thesis by auto
  qed
qed

lemma counter_run:
  assumes "0 < K" and "K \<le> MAX_STEPS" and "\<not> isdict final \<or> dict_has final ''next''"
  shows "\<exists>rs'. execute_graph_run (counter_env K final) counter_graph (fresh_run Map.empty) =
            run_from (counter_env K final) counter_graph (next_of final) K rs'"
proof -
  let ?rs0 = "emit ((fresh_run Map.empty)\<lparr>status := ''RUNNING''\<rparr>)
                  (''Run started for graph '' @ graph_id counter_graph @ '', entry='' @ entry counter_graph)"
  have "count_of (state ?rs0) = int 0" "state ?rs0 ''stop'' \<noteq> Some (PBool True)"
    by (simp_all add: count_of_def fresh_run_def new_run_def)
  from counter_loop[OF assms(1,2) this assms(3)] obtain rs' where
    "execute_loop (counter_env K final) counter_graph (PStr ''a'') 0 ?rs0 =
       execute_loop (counter_env K final) counter_graph (next_of final) K rs'" by blast
  then show ?thesis
    by (auto simp: execute_graph_run_def run_from_def Let_def counter_graph_def)
qed

lemma run_from_at_bound:
  "run_from e graph k MAX_STEPS rs =
     (rs\<lparr>status := ''FAILED'',
         logs := logs rs @ [''Max steps 1000 reached, aborting.''],
         log_queue := log_queue rs @ [Some ''Max steps 1000 reached, aborting.'', None]\<rparr>, None)"
  by (simp add: run_from_def execute_loop_exit after_loop_def finish_def str_nat_MAX_STEPS emit_def)

lemma run_from_no_next:
  assumes "visited < MAX_STEPS"
  shows "run_from e graph PNone visited rs =
     (rs\<lparr>status := ''DONE'',
         logs := logs rs @ [''Run finished. status=DONE''],
         log_queue := log_queue rs @ [Some ''Run finished. status=DONE'', None]\<rparr>, None)"
  using assms by (simp add: run_from_def execute_loop_exit after_loop_def finish_def emit_def)

lemma run_from_missing_node:
  assumes "nodes graph k = None" and "visited < MAX_STEPS"
  shows "run_from e graph (PStr k) visited rs =
     (let nf = ''Node '' @ sq @ k @ sq @ '' not found. Stopping.'';
          fin = (if Suc visited < MAX_STEPS then ''Run finished. status=DONE''
                 else ''Max steps 1000 reached, aborting.'')
      in (rs\<lparr>current_node := PStr k,
             status := (if Suc visited < MAX_STEPS then ''DONE'' else ''FAILED''),
             logs := logs rs @ [nf, fin],
             log_queue := log_queue rs @ [Some nf, Some fin, None]\<rparr>, None))"
proof -
  have "run_step e graph (PStr k) rs =
      (emit (rs\<lparr>current_node := PStr k\<rparr>) (''Node '' @ sq @ k @ sq @ '' not found. Stopping.''),
       Inr Break)"
    using assms(1) by (simp add: run_step_def)
  with assms(2) have "execute_loop e graph (PStr k) visited rs =
      (emit (rs\<lparr>current_node := PStr k\<rparr>) (''Node '' @ sq @ k @ sq @ '' not found. Stopping.''),
       Inr (PStr k, Suc visited))"
    by (simp add: execute_loop_step)
  then show ?thesis
    by (simp add: run_from_def after_loop_def finish_def emit_def Let_def str_nat_MAX_STEPS
          not_less)
qed

text \<open>
  The counter never passes the bound, and a graph that cycles forever is stopped at the
  bound, with the next key still set, and reported \<^verbatim>\<open>FAILED\<close>.
\<close>

lemma execute_loop_visited:
  "execute_loop e graph k v rs = (rs', Inr (k', v')) \<Longrightarrow> v \<le> MAX_STEPS \<Longrightarrow>
     v \<le> v' \<and> v' \<le> MAX_STEPS"
proof (induction e graph k v rs arbitrary: rs' k' v' rule: execute_loop.induct)
  case (1 e graph node_key visited rs)
  show ?case
  proof (cases "node_key \<noteq> PNone \<and> visited < MAX_STEPS")
    case False
    with "1.prems" show ?thesis by (subst (asm) execute_loop.simps) auto
  next
    case True
    obtain rs1 r1 where s: "run_step e graph node_key rs = (rs1, r1)" by force
    show ?thesis
    proof (cases r1)
      case (Inl ex)
      with True s "1.prems" show ?thesis by (subst (asm) execute_loop.simps) auto
    next
      case (Inr sr)
      show ?thesis
      proof (cases sr)
        case Break
        with Inr True s "1.prems" show ?thesis by (subst (asm) execute_loop.simps) auto
      next
        case (Continue nk)
        with Inr True s "1.prems"(1)
        have "execute_loop e graph nk (Suc visited) rs1 = (rs', Inr (k', v'))"
          by (subst (asm) execute_loop.simps) auto
        moreover from True have "Suc visited \<le> MAX_STEPS" by simp
        ultimately have "Suc visited \<le> v' \<and> v' \<le> MAX_STEPS"
          by (rule "1.IH"[OF True s[symmetric] Inr Continue])
        then show ?thesis by simp
      qed
    qed
  qed
qed

lemma cycle_step:
  assumes "state rs ''stop'' \<noteq> Some (PBool True)"
  shows "\<exists>rs'. run_step demo_env loop_graph (PStr ''a'') rs = (rs', Inr (Continue (PStr ''a'')))
           \<and> state rs' = state rs"
  using assms
  by (simp add: run_step_def loop_graph_def exec_node_def decide_next_def static_next_def
        stop_check_def)

lemma cycle_loop:
  assumes "v \<le> MAX_STEPS" and "state rs ''stop'' \<noteq> Some (PBool True)"
  shows "\<exists>rs'. execute_loop demo_env loop_graph (PStr ''a'') v rs = (rs', Inr (PStr ''a'', MAX_STEPS))"
  using assms
proof (induction "MAX_STEPS - v" arbitrary: v rs)
  case 0
  then have "v = MAX_STEPS" by simp
  then show ?case by (simp add: execute_loop_exit)
next
  case (Suc d)
  then have lt: "v < MAX_STEPS" by simp
  from cycle_step[OF Suc.prems(2)] obtain rs1 where
    step: "run_step demo_env loop_graph (PStr ''a'') rs = (rs1, Inr (Continue (PStr ''a'')))"
    and st: "state rs1 = state rs" by blast
  from Suc.hyps(2) have "d = MAX_STEPS - Suc v" by simp
  moreover from lt have "Suc v \<le> MAX_STEPS" by simp
  moreover from st Suc.prems(2) have "state rs1 ''stop'' \<noteq> Some (PBool True)" by simp
  ultimately obtain rs' where
    "execute_loop demo_env loop_graph (PStr ''a'') (Suc v) rs1 = (rs', Inr (PStr ''a'', MAX_STEPS))"
    using Suc.hyps(1) by blast
  with lt step show ?case by (simp add: execute_loop_step)
qed

lemma cycle_fails_at_bound:
  "(\<exists>rs'. execute_loop demo_env loop_graph (PStr ''a'') 0
            (emit ((fresh_run Map.empty)\<lparr>status := ''RUNNING''\<rparr>) ''Run started for graph g1, entry=a'')
          = (rs', Inr (PStr ''a'', 1000)))
   \<and> status (fst (execute_graph_run demo_env loop_graph (fresh_run Map.empty))) = ''FAILED''"
proof -
  let ?rs0 = "emit ((fresh_run Map.empty)\<lparr>status := ''RUNNING''\<rparr>) ''Run started for graph g1, entry=a''"
  have "0 \<le> MAX_STEPS" "state ?rs0 ''stop'' \<noteq> Some (PBool True)"
    by (simp_all add: fresh_run_def new_run_def)
  from cycle_loop[OF this] obtain rs' where
    l: "execute_loop demo_env loop_graph (PStr ''a'') 0 ?rs0 = (rs', Inr (PStr ''a'', MAX_STEPS))"
    by blast
  then have "status (fst (execute_graph_run demo_env loop_graph (fresh_run Map.empty))) = ''FAILED''"
    by (simp add: execute_graph_run_def run_from_def loop_graph_def after_loop_def finish_def)
  with l show ?thesis by (auto simp: MAX_STEPS_def)
qed

text \<open>
  C3, at the bound. The counting function returns \<^verbatim>\<open>None\<close> on its 1000th call, so the loop
  ends with no next key (\<^verbatim>\<open>node_key\<close> is \<^verbatim>\<open>None\<close>) after 1000 passes; the test after the loop
  reads \<^verbatim>\<open>visited >= MAX_STEPS\<close>, and the run is reported \<^verbatim>\<open>FAILED\<close> with the line about the
  bound.
\<close>

theorem bound_reported_without_next_key:
  "(\<exists>rs'. execute_loop (counter_env 1000 PNone) counter_graph (PStr ''a'') 0
           (emit ((fresh_run Map.empty)\<lparr>status := ''RUNNING''\<rparr>) ''Run started for graph g1, entry=a'')
         = (rs', Inr (PNone, 1000)))
   \<and> status (fst (execute_graph_run (counter_env 1000 PNone) counter_graph (fresh_run Map.empty)))
       = ''FAILED''
   \<and> last (logs (fst (execute_graph_run (counter_env 1000 PNone) counter_graph (fresh_run Map.empty))))
       = ''Max steps 1000 reached, aborting.''"
proof -
  let ?e = "counter_env 1000 PNone"
  let ?rs0 = "emit ((fresh_run Map.empty)\<lparr>status := ''RUNNING''\<rparr>) ''Run started for graph g1, entry=a''"
  have K: "(0::nat) < 1000" "1000 \<le> MAX_STEPS" "\<not> isdict PNone \<or> dict_has PNone ''next''"
    by (simp_all add: MAX_STEPS_def)
  have "count_of (state ?rs0) = int 0" "state ?rs0 ''stop'' \<noteq> Some (PBool True)"
    by (simp_all add: count_of_def fresh_run_def new_run_def)
  from counter_loop[OF K(1,2) this K(3)] obtain rs' where
    "execute_loop ?e counter_graph (PStr ''a'') 0 ?rs0 = execute_loop ?e counter_graph PNone 1000 rs'"
    by (auto simp: next_of_def)
  then have loop: "execute_loop ?e counter_graph (PStr ''a'') 0 ?rs0 = (rs', Inr (PNone, 1000))"
    by (simp add: execute_loop_exit)
  from counter_run[OF K] obtain rs'' where
    "execute_graph_run ?e counter_graph (fresh_run Map.empty) = run_from ?e counter_graph PNone 1000 rs''"
    by (auto simp: next_of_def)
  then have "execute_graph_run ?e counter_graph (fresh_run Map.empty)
      = run_from ?e counter_graph PNone MAX_STEPS rs''"
    by (simp add: MAX_STEPS_def)
  with loop show ?thesis by (simp add: run_from_at_bound)
qed

text \<open>
  C4, at the bound. The counting function sends the 1000th pass to the key \<^verbatim>\<open>ghost\<close>, which
  the graph does not have: the missing node is logged, the loop is left by \<^verbatim>\<open>break\<close>, and the
  run is reported \<^verbatim>\<open>FAILED\<close>.
\<close>

theorem missing_node_at_bound_fails:
  "status (fst (execute_graph_run (counter_env 999 (PDict [(''next'', PStr ''ghost'')]))
                  counter_graph (fresh_run Map.empty))) = ''FAILED''
   \<and> current_node (fst (execute_graph_run (counter_env 999 (PDict [(''next'', PStr ''ghost'')]))
                  counter_graph (fresh_run Map.empty))) = PStr ''ghost''
   \<and> (\<exists>ms. logs (fst (execute_graph_run (counter_env 999 (PDict [(''next'', PStr ''ghost'')]))
                  counter_graph (fresh_run Map.empty)))
         = ms @ [''Node '' @ sq @ ''ghost'' @ sq @ '' not found. Stopping.'',
                 ''Max steps 1000 reached, aborting.''])"
proof -
  let ?e = "counter_env 999 (PDict [(''next'', PStr ''ghost'')])"
  have K: "(0::nat) < 999" "999 \<le> MAX_STEPS"
    "\<not> isdict (PDict [(''next'', PStr ''ghost'')]) \<or> dict_has (PDict [(''next'', PStr ''ghost'')]) ''next''"
    by (simp_all add: MAX_STEPS_def)
  from counter_run[OF K] obtain rs' where
    run: "execute_graph_run ?e counter_graph (fresh_run Map.empty)
      = run_from ?e counter_graph (PStr ''ghost'') 999 rs'"
    by (auto simp: next_of_def)
  have "nodes counter_graph ''ghost'' = None" "999 < MAX_STEPS"
    by (simp_all add: counter_graph_def MAX_STEPS_def)
  from run_from_missing_node[OF this, of ?e rs'] show ?thesis
    unfolding run by (simp add: MAX_STEPS_def Let_def)
qed

text \<open>
  C10, at the bound. The counting function returns \<^verbatim>\<open>{"next": None}\<close> on its 1000th call:
  the next key resolves to nothing, no exception propagates, and the run is reported
  \<^verbatim>\<open>FAILED\<close>.
\<close>

theorem null_next_at_bound_fails:
  "dict_item (PDict [(''next'', PNone)]) ''next'' = PNone
   \<and> status (fst (execute_graph_run (counter_env 1000 (PDict [(''next'', PNone)]))
                  counter_graph (fresh_run Map.empty))) = ''FAILED''
   \<and> snd (execute_graph_run (counter_env 1000 (PDict [(''next'', PNone)]))
                  counter_graph (fresh_run Map.empty)) = None
   \<and> last (logs (fst (execute_graph_run (counter_env 1000 (PDict [(''next'', PNone)]))
                  counter_graph (fresh_run Map.empty))))
       = ''Max steps 1000 reached, aborting.''"
proof -
  let ?e = "counter_env 1000 (PDict [(''next'', PNone)])"
  have K: "(0::nat) < 1000" "1000 \<le> MAX_STEPS"
    "\<not> isdict (PDict [(''next'', PNone)]) \<or> dict_has (PDict [(''next'', PNone)]) ''next''"
    by (simp_all add: MAX_STEPS_def)
  from counter_run[OF K] obtain rs' where
    "execute_graph_run ?e counter_graph (fresh_run Map.empty) = run_from ?e counter_graph PNone 1000 rs'"
    by (auto simp: next_of_def)
  then have "execute_graph_run ?e counter_graph (fresh_run Map.empty)
      = run_from ?e counter_graph PNone MAX_STEPS rs'"
    by (simp add: MAX_STEPS_def)
  then show ?thesis by (simp add: run_from_at_bound)
qed

section \<open>The subscribers' view\<close>

lemma sole_step:
  assumes "channel_step c c'" and "c = Channel todo q [(sent, closed)]"
    and "closed \<longrightarrow> DoneEvent \<in> set sent"
  shows "\<exists>todo' q' sent' closed'. c' = Channel todo' q' [(sent', closed')]
           \<and> (closed' \<longrightarrow> DoneEvent \<in> set sent') \<and> delivered c' = delivered c"
  using assms(1)
proof (cases rule: channel_step.cases)
  case (put x todo1 q1 subs)
  with assms(2,3) show ?thesis by simp
next
  case (get_log i subs sent1 todo1 msg q1)
  with assms(2) have "subs = [(sent, closed)]" "i = 0" by simp_all
  with get_log have "sent1 = sent" "closed = False" by simp_all
  with get_log assms(2) \<open>subs = [(sent, closed)]\<close> \<open>i = 0\<close> show ?thesis by auto
next
  case (get_done i subs sent1 todo1 q1)
  with assms(2) have "subs = [(sent, closed)]" "i = 0" by simp_all
  with get_done have "sent1 = sent" "closed = False" by simp_all
  with get_done assms(2) \<open>subs = [(sent, closed)]\<close> \<open>i = 0\<close> show ?thesis by auto
qed

lemma sole_steps:
  assumes "channel_step\<^sup>*\<^sup>* c c'" and "c = Channel todo q [(sent, closed)]"
    and "closed \<longrightarrow> DoneEvent \<in> set sent"
  shows "\<exists>todo' q' sent' closed'. c' = Channel todo' q' [(sent', closed')]
           \<and> (closed' \<longrightarrow> DoneEvent \<in> set sent') \<and> delivered c' = delivered c"
  using assms(1)
proof (induction rule: rtranclp_induct)
  case base
  with assms(2,3) show ?case by blast
next
  case (step y z)
  then obtain todo1 q1 sent1 closed1 where y: "y = Channel todo1 q1 [(sent1, closed1)]"
    and d: "closed1 \<longrightarrow> DoneEvent \<in> set sent1" and e: "delivered y = delivered c" by blast
  from sole_step[OF step.hyps(2) y d] e show ?case by auto
qed

lemma sole_subscriber_receives:
  assumes "channel_step\<^sup>*\<^sup>* (Channel items [] [([], False)]) (Channel todo q [(sent, True)])"
  shows "sent = websocket_logs items \<and> DoneEvent \<in> set sent"
  using sole_steps[OF assms refl] by auto

lemma websocket_logs_no_marker: "websocket_logs (map Some ms) = map LogMessage ms"
  by (induction ms) simp_all

lemma put_all:
  "channel_step\<^sup>*\<^sup>* (Channel items q subs) (Channel [] (q @ items) subs)"
proof (induction items arbitrary: q)
  case Nil
  then show ?case by simp
next
  case (Cons x items)
  have "channel_step (Channel (x # items) q subs) (Channel items (q @ [x]) subs)"
    by (rule channel_step.put)
  moreover have
    "channel_step\<^sup>*\<^sup>* (Channel items (q @ [x]) subs) (Channel [] ((q @ [x]) @ items) subs)"
    by (rule Cons.IH)
  ultimately have
    "channel_step\<^sup>*\<^sup>* (Channel (x # items) q subs) (Channel [] ((q @ [x]) @ items) subs)"
    by (rule converse_rtranclp_into_rtranclp)
  then show ?case by simp
qed

lemma get_all:
  assumes "i < length subs" and "subs ! i = (sent, False)"
  shows "channel_step\<^sup>*\<^sup>* (Channel [] (map Some ms @ None # q) subs)
     (Channel [] q (subs[i := (sent @ map LogMessage ms @ [DoneEvent], True)]))"
  using assms
proof (induction ms arbitrary: sent subs)
  case Nil
  then have "channel_step (Channel [] (None # q) subs)
      (Channel [] q (subs[i := (sent @ [DoneEvent], True)]))"
    by (rule channel_step.get_done)
  then show ?case by auto
next
  case (Cons m ms)
  let ?subs = "subs[i := (sent @ [LogMessage m], False)]"
  from Cons.prems have "channel_step (Channel [] (Some m # map Some ms @ None # q) subs)
            (Channel [] (map Some ms @ None # q) ?subs)"
    by (rule channel_step.get_log)
  moreover from Cons.prems(1) have "i < length ?subs" "?subs ! i = (sent @ [LogMessage m], False)"
    by simp_all
  then have
    "channel_step\<^sup>*\<^sup>* (Channel [] (map Some ms @ None # q) ?subs)
       (Channel [] q (?subs[i := ((sent @ [LogMessage m]) @ map LogMessage ms @ [DoneEvent], True)]))"
    by (rule Cons.IH)
  ultimately have "channel_step\<^sup>*\<^sup>* (Channel [] (Some m # map Some ms @ None # q) subs)
       (Channel [] q (?subs[i := ((sent @ [LogMessage m]) @ map LogMessage ms @ [DoneEvent], True)]))"
    by (rule converse_rtranclp_into_rtranclp)
  then show ?case by simp
qed

lemma sole_subscriber_can_finish:
  "channel_step\<^sup>*\<^sup>* (Channel (map Some ms @ [None]) [] [([], False)])
     (Channel [] [] [(map LogMessage ms @ [DoneEvent], True)])"
proof -
  have "channel_step\<^sup>*\<^sup>* (Channel (map Some ms @ [None]) [] [([], False)])
      (Channel [] (map Some ms @ [None]) [([], False)])"
    using put_all[of "map Some ms @ [None]" "[]" "[([], False)]"] by simp
  moreover have "channel_step\<^sup>*\<^sup>* (Channel [] (map Some ms @ [None]) [([], False)])
      (Channel [] [] [(map LogMessage ms @ [DoneEvent], True)])"
    using get_all[of 0 "[([], False)]" "[]" ms "[]"] by simp
  ultimately show ?thesis by (rule rtranclp_trans)
qed

lemma new_run_queue:
  assumes "final = fst (execute_graph_run e graph (new_run rid gid st))"
  shows "log_queue final = map Some (logs final)
           @ (if snd (execute_graph_run e graph (new_run rid gid st)) = Some Pending then [] else [None])"
proof -
  obtain ms where "logs final = logs (new_run rid gid st) @ ms"
    and "log_queue final = log_queue (new_run rid gid st) @ map Some ms
           @ (if snd (execute_graph_run e graph (new_run rid gid st)) = Some Pending then [] else [None])"
    using execute_graph_run_queue[of e graph "new_run rid gid st"] unfolding assms by blast
  then show ?thesis by (simp add: new_run_def)
qed

text \<open>
  C9, as the code has it. \<^verbatim>\<open>_emit\<close> appends the message to the log list and to the queue.
  For a run created by \<^verbatim>\<open>run_graph_async\<close> and a subscriber that is the only one on the run's
  queue: in whatever order the run's puts and the subscriber's gets take turns, when the
  subscriber's loop has read the end marker it has sent exactly the run's final log list,
  line by line and in order, and then the done event; and when the run ends, the subscriber
  can get there.
\<close>

theorem sole_subscriber_gets_log_list:
  assumes "final = fst (execute_graph_run e graph (new_run rid gid st))"
  shows "logs (emit rs msg) = logs rs @ [msg]
     \<and> log_queue (emit rs msg) = log_queue rs @ [Some msg]
     \<and> (\<forall>todo q sent.
           channel_step\<^sup>*\<^sup>* (Channel (log_queue final) [] [([], False)]) (Channel todo q [(sent, True)])
           \<longrightarrow> sent = map LogMessage (logs final) @ [DoneEvent])
     \<and> (snd (execute_graph_run e graph (new_run rid gid st)) \<noteq> Some Pending
         \<longrightarrow> log_queue final = map Some (logs final) @ [None]
           \<and> channel_step\<^sup>*\<^sup>* (Channel (log_queue final) [] [([], False)])
                (Channel [] [] [(map LogMessage (logs final) @ [DoneEvent], True)]))"
proof -
  note q = new_run_queue[OF assms]
  have r: "sent = map LogMessage (logs final) @ [DoneEvent]"
    if s: "channel_step\<^sup>*\<^sup>* (Channel (log_queue final) [] [([], False)]) (Channel todo q [(sent, True)])"
    for todo q sent
  proof (cases "snd (execute_graph_run e graph (new_run rid gid st)) = Some Pending")
    case True
    with q have "log_queue final = map Some (logs final)" by simp
    from sole_subscriber_receives[OF s] have d: "DoneEvent \<in> set sent"
      and "sent = websocket_logs (log_queue final)" by blast+
    with \<open>log_queue final = map Some (logs final)\<close> have "sent = map LogMessage (logs final)"
      by (simp add: websocket_logs_no_marker)
    with d show ?thesis by auto
  next
    case False
    with q have "log_queue final = map Some (logs final) @ [None]" by simp
    with sole_subscriber_receives[OF s] show ?thesis by (simp add: websocket_logs_drain)
  qed
  have f: "log_queue final = map Some (logs final) @ [None]
           \<and> channel_step\<^sup>*\<^sup>* (Channel (log_queue final) [] [([], False)])
                (Channel [] [] [(map LogMessage (logs final) @ [DoneEvent], True)])"
    if "snd (execute_graph_run e graph (new_run rid gid st)) \<noteq> Some Pending"
  proof -
    from that q have "log_queue final = map Some (logs final) @ [None]" by simp
    then show ?thesis using sole_subscriber_can_finish[of "logs final"] by simp
  qed
  have e1: "logs (emit rs msg) = logs rs @ [msg]" by simp
  have e2: "log_queue (emit rs msg) = log_queue rs @ [Some msg]" by simp
  from r have r': "\<forall>todo q sent.
           channel_step\<^sup>*\<^sup>* (Channel (log_queue final) [] [([], False)]) (Channel todo q [(sent, True)])
           \<longrightarrow> sent = map LogMessage (logs final) @ [DoneEvent]" by blast
  from f have f': "snd (execute_graph_run e graph (new_run rid gid st)) \<noteq> Some Pending
         \<longrightarrow> log_queue final = map Some (logs final) @ [None]
           \<and> channel_step\<^sup>*\<^sup>* (Channel (log_queue final) [] [([], False)])
                (Channel [] [] [(map LogMessage (logs final) @ [DoneEvent], True)])" by blast
  from e1 e2 r' f' show ?thesis by (intro conjI)
qed

lemma single_node_run:
  "logs (fst (execute_graph_run demo_env single_node_graph (new_run ''r1'' ''g1'' Map.empty))) =
     [''Run started for graph g1, entry=start'',
      ''Entering node: start'',
      ''Node '' @ sq @ ''start'' @ sq @ '' has no fn_name; skipping execution.'',
      ''Node '' @ sq @ ''start'' @ sq @ '' completed. result=None'',
      ''Run finished. status=DONE'']
   \<and> snd (execute_graph_run demo_env single_node_graph (new_run ''r1'' ''g1'' Map.empty)) = None"
proof -
  let ?rs0 = "emit ((new_run ''r1'' ''g1'' Map.empty)\<lparr>status := ''RUNNING''\<rparr>)
                ''Run started for graph g1, entry=start''"
  obtain rs1 where step: "run_step demo_env single_node_graph (PStr ''start'') ?rs0
        = (rs1, Inr (Continue PNone))"
    and l: "logs rs1 = [''Run started for graph g1, entry=start'',
      ''Entering node: start'',
      ''Node '' @ sq @ ''start'' @ sq @ '' has no fn_name; skipping execution.'',
      ''Node '' @ sq @ ''start'' @ sq @ '' completed. result=None'']"
    by (simp add: run_step_def single_node_graph_def exec_node_def decide_next_def
          static_next_def stop_check_def new_run_def shortrepr_def demo_env_def)
  have "execute_loop demo_env single_node_graph (PStr ''start'') 0 ?rs0 = (rs1, Inr (PNone, Suc 0))"
    using step by (simp add: execute_loop_step execute_loop_exit MAX_STEPS_def)
  then have "run_from demo_env single_node_graph (PStr ''start'') 0 ?rs0
      = run_from demo_env single_node_graph PNone (Suc 0) rs1"
    by (simp add: run_from_def execute_loop_exit)
  then show ?thesis
    by (simp add: execute_graph_run_def single_node_graph_def run_from_no_next MAX_STEPS_def l)
qed

theorem sole_subscriber_gets_log_list_witness:
  "channel_step\<^sup>*\<^sup>*
     (Channel (log_queue (fst (execute_graph_run demo_env single_node_graph
                                 (new_run ''r1'' ''g1'' Map.empty)))) [] [([], False)])
     (Channel [] []
        [(map LogMessage (logs (fst (execute_graph_run demo_env single_node_graph
                                      (new_run ''r1'' ''g1'' Map.empty)))) @ [DoneEvent], True)])
   \<and> map LogMessage (logs (fst (execute_graph_run demo_env single_node_graph
                                      (new_run ''r1'' ''g1'' Map.empty)))) @ [DoneEvent]
       = [LogMessage ''Run started for graph g1, entry=start'',
          LogMessage ''Entering node: start'',
          LogMessage (''Node '' @ sq @ ''start'' @ sq @ '' has no fn_name; skipping execution.''),
          LogMessage (''Node '' @ sq @ ''start'' @ sq @ '' completed. result=None''),
          LogMessage ''Run finished. status=DONE'',
          DoneEvent]"
proof -
  have "snd (execute_graph_run demo_env single_node_graph (new_run ''r1'' ''g1'' Map.empty))
      \<noteq> Some Pending"
    using single_node_run by simp
  then have "channel_step\<^sup>*\<^sup>*
     (Channel (log_queue (fst (execute_graph_run demo_env single_node_graph
                                 (new_run ''r1'' ''g1'' Map.empty)))) [] [([], False)])
     (Channel [] []
        [(map LogMessage (logs (fst (execute_graph_run demo_env single_node_graph
                                      (new_run ''r1'' ''g1'' Map.empty)))) @ [DoneEvent], True)])"
    using sole_subscriber_gets_log_list [where e = demo_env and graph = single_node_graph
          and rid = "''r1''" and gid = "''g1''" and st = Map.empty, OF refl]
    by blast
  then show ?thesis using single_node_run by simp
qed

text \<open>
  C9 as stated fails with two subscribers on one run: each item of the queue goes to one of
  them. Both attach before the run has put anything; the first gets the first log line, the
  second gets the other four and the end marker. The second has read until the end-of-stream
  signal and was sent four of the five lines of the final log list.
\<close>

theorem second_subscriber_gets_partial_list:
  "logs (fst (execute_graph_run demo_env single_node_graph (new_run ''r1'' ''g1'' Map.empty))) =
     [''Run started for graph g1, entry=start'',
      ''Entering node: start'',
      ''Node '' @ sq @ ''start'' @ sq @ '' has no fn_name; skipping execution.'',
      ''Node '' @ sq @ ''start'' @ sq @ '' completed. result=None'',
      ''Run finished. status=DONE'']
   \<and> channel_step\<^sup>*\<^sup>*
     (Channel (log_queue (fst (execute_graph_run demo_env single_node_graph
                                 (new_run ''r1'' ''g1'' Map.empty)))) []
        [([], False), ([], False)])
     (Channel [] []
        [([LogMessage ''Run started for graph g1, entry=start''], False),
         ([LogMessage ''Entering node: start'',
           LogMessage (''Node '' @ sq @ ''start'' @ sq @ '' has no fn_name; skipping execution.''),
           LogMessage (''Node '' @ sq @ ''start'' @ sq @ '' completed. result=None''),
           LogMessage ''Run finished. status=DONE'',
           DoneEvent], True)])"
proof -
  let ?final = "fst (execute_graph_run demo_env single_node_graph (new_run ''r1'' ''g1'' Map.empty))"
  let ?l1 = "''Run started for graph g1, entry=start''"
  let ?rest = "[''Entering node: start'',
      ''Node '' @ sq @ ''start'' @ sq @ '' has no fn_name; skipping execution.'',
      ''Node '' @ sq @ ''start'' @ sq @ '' completed. result=None'',
      ''Run finished. status=DONE'']"
  let ?subs = "[([], False), ([], False)] :: (ws_message list \<times> bool) list"
  have l: "logs ?final = ?l1 # ?rest" using single_node_run by simp
  have q: "log_queue ?final = Some ?l1 # map Some ?rest @ [None]"
    using new_run_queue[OF refl, of demo_env single_node_graph "''r1''" "''g1''" Map.empty]
      single_node_run
    by (simp only: l) simp
  have "channel_step\<^sup>*\<^sup>* (Channel (log_queue ?final) [] ?subs)
      (Channel [] (Some ?l1 # map Some ?rest @ [None]) ?subs)"
    using put_all[of "log_queue ?final" "[]" ?subs] by (simp only: q append_Nil)
  moreover have "channel_step (Channel [] (Some ?l1 # map Some ?rest @ [None]) ?subs)
      (Channel [] (map Some ?rest @ [None]) (?subs[0 := ([] @ [LogMessage ?l1], False)]))"
    by (rule channel_step.get_log) simp_all
  moreover have "channel_step\<^sup>*\<^sup>*
      (Channel [] (map Some ?rest @ None # []) (?subs[0 := ([] @ [LogMessage ?l1], False)]))
      (Channel [] [] ((?subs[0 := ([] @ [LogMessage ?l1], False)])
                        [1 := ([] @ map LogMessage ?rest @ [DoneEvent], True)]))"
    by (rule get_all) simp_all
  ultimately have "channel_step\<^sup>*\<^sup>* (Channel (log_queue ?final) [] ?subs)
      (Channel [] [] ((?subs[0 := ([] @ [LogMessage ?l1], False)])
                        [1 := ([] @ map LogMessage ?rest @ [DoneEvent], True)]))"
    by (meson rtranclp.rtrancl_into_rtrancl rtranclp_trans)
  then show ?thesis using l by simp
qed

section \<open>The shallow copy at run creation\<close>

lemma length_apply_mutation [simp]: "length (apply_mutation h m) = length h"
  by (cases m) (auto split: option.splits hobj.splits)

lemma apply_mutation_frame:
  "b \<noteq> target m \<Longrightarrow> heap_get (apply_mutation h m) b = heap_get h b"
  by (cases m) (auto simp: heap_get_def split: option.splits hobj.splits)

lemma apply_all_frame:
  "\<forall>m \<in> set ms. target m = s \<Longrightarrow> b \<noteq> s \<Longrightarrow> heap_get (apply_all h ms) b = heap_get h b"
  unfolding apply_all_def
  by (induction ms arbitrary: h) (auto simp: apply_mutation_frame)

lemma those_map_Some:
  "those (map f xs) = Some ys \<Longrightarrow> x \<in> set xs \<Longrightarrow> \<exists>y. f x = Some y"
  by (induction xs arbitrary: ys) (auto split: option.splits)

lemma reify_frame:
  assumes "\<And>b. b < length h \<Longrightarrow> heap_get h' b = heap_get h b"
  shows "reify n h v = Some pv \<Longrightarrow> reify n h' v = Some pv"
proof (induction n arbitrary: v pv)
  case 0
  then show ?case by (cases v) simp_all
next
  case (Suc n)
  show ?case
  proof (cases v)
    case (HRef a)
    with Suc.prems obtain ob where ob: "heap_get h a = Some ob"
      by (auto split: option.splits)
    then have "a < length h" by (simp add: heap_get_def split: if_splits)
    with assms ob have ob': "heap_get h' a = Some ob" by simp
    show ?thesis
    proof (cases ob)
      case (HList xs)
      with Suc.prems HRef ob obtain ys where ys: "those (map (reify n h) xs) = Some ys"
        by auto
      have meq: "map (reify n h') xs = map (reify n h) xs"
      proof (rule map_cong[OF refl])
        fix x assume "x \<in> set xs"
        from those_map_Some[OF ys this] obtain y where "reify n h x = Some y" by blast
        with Suc.IH show "reify n h' x = reify n h x" by simp
      qed
      have "reify (Suc n) h' (HRef a) = reify (Suc n) h (HRef a)"
        by (simp add: ob ob' HList meq del: map_eq_conv)
      with Suc.prems HRef show ?thesis by simp
    next
      case (HDict kvs)
      let ?f = "\<lambda>h. \<lambda>(k, v). map_option (Pair k) (reify n h v)"
      from Suc.prems HRef ob HDict obtain ys where ys: "those (map (?f h) kvs) = Some ys"
        by auto
      have meq: "map (?f h') kvs = map (?f h) kvs"
      proof (rule map_cong[OF refl])
        fix x assume "x \<in> set kvs"
        from those_map_Some[OF ys this] obtain y where y: "?f h x = Some y" by blast
        obtain k v where x: "x = (k, v)" by (cases x)
        with y obtain z where "reify n h v = Some z" by auto
        with Suc.IH have "reify n h' v = reify n h v" by simp
        with x show "?f h' x = ?f h x" by simp
      qed
      have "reify (Suc n) h' (HRef a) = reify (Suc n) h (HRef a)"
        by (simp add: ob ob' HDict meq del: map_eq_conv)
      with Suc.prems HRef show ?thesis by simp
    qed
  qed (use Suc.prems in simp_all)
qed

text \<open>
  C2, as the code has it. \<^verbatim>\<open>run_graph_async\<close> gives the run a new dictionary object with the
  entries of the caller's. Whatever keys are then set, updated or deleted in the run's
  state, every object the caller had, its dictionary included, is as it was, and the
  caller's dictionary reads back the same value.
\<close>

theorem shallow_copy_frame:
  assumes "run_graph_async_store GRAPHS h gid a = Inr (h1, s)"
    and "\<forall>m \<in> set ms. target m = s"
  shows "s \<noteq> a \<and> heap_get h1 s = heap_get h a
     \<and> (\<forall>b < length h. heap_get (apply_all h1 ms) b = heap_get h b)
     \<and> (\<forall>n v. reify n h (HRef a) = Some v \<longrightarrow> reify n (apply_all h1 ms) (HRef a) = Some v)"
proof -
  from assms(1) obtain kvs where a: "heap_get h a = Some (HDict kvs)"
    and h1: "h1 = h @ [HDict kvs]" and s: "s = length h"
    by (auto simp: run_graph_async_store_def dict_copy_def
        split: option.splits hobj.splits)
  from a have lt: "a < length h" by (simp add: heap_get_def split: if_splits)
  have old: "heap_get (apply_all h1 ms) b = heap_get h b" if "b < length h" for b
  proof -
    from that s have "b \<noteq> s" by simp
    from apply_all_frame[OF assms(2) this] have "heap_get (apply_all h1 ms) b = heap_get h1 b" .
    also from that have "\<dots> = heap_get h b" by (simp add: h1 heap_get_def nth_append)
    finally show ?thesis .
  qed
  have "heap_get h1 s = heap_get h a" using a by (simp add: h1 s heap_get_def)
  moreover have "s \<noteq> a" using lt s by simp
  moreover have "reify n (apply_all h1 ms) (HRef a) = Some v" if "reify n h (HRef a) = Some v" for n v
    using reify_frame[of h "apply_all h1 ms", OF old that] .
  ultimately show ?thesis using old by blast
qed

theorem shallow_copy_frame_witness:
  "run_graph_async_store [''g'' \<mapsto> loop_graph] nested_heap ''g'' 0
      = Inr (nested_heap @ [HDict [(''xs'', HRef 1)]], 2)
   \<and> reify 2 nested_heap (HRef 0) = Some (PDict [(''xs'', PList [])])
   \<and> reify 2 (apply_all (nested_heap @ [HDict [(''xs'', HRef 1)]])
                [SetItem 2 ''y'' (HInt 5), Update 2 [(''xs'', HNone)], DelItem 2 ''y''])
        (HRef 0) = Some (PDict [(''xs'', PList [])])"
proof -
  have run: "run_graph_async_store [''g'' \<mapsto> loop_graph] nested_heap ''g'' 0
      = Inr (nested_heap @ [HDict [(''xs'', HRef 1)]], 2)"
    by (simp add: run_graph_async_store_def dict_copy_def heap_get_def nested_heap_def)
  have r: "reify 2 nested_heap (HRef 0) = Some (PDict [(''xs'', PList [])])"
    by (simp add: numeral_2_eq_2 heap_get_def nested_heap_def)
  have "\<forall>m \<in> set [SetItem 2 ''y'' (HInt 5), Update 2 [(''xs'', HNone)], DelItem 2 ''y'']. target m = 2"
    by simp
  from shallow_copy_frame[OF run this] r run show ?thesis by blast
qed

text \<open>
  C2 as stated fails for nested values: the caller's \<^verbatim>\<open>{"xs": []}\<close> is copied, a node function
  appends to \<^verbatim>\<open>state["xs"]\<close>, and the caller's dictionary reads back \<^verbatim>\<open>{"xs": [1]}\<close>.
\<close>

theorem nested_mutation_reaches_caller:
  "run_graph_async_store [''g'' \<mapsto> loop_graph] nested_heap ''g'' 0
      = Inr (nested_heap @ [HDict [(''xs'', HRef 1)]], 2)
   \<and> reify 2 nested_heap (HRef 0) = Some (PDict [(''xs'', PList [])])
   \<and> reify 2 (append_to_xs (nested_heap @ [HDict [(''xs'', HRef 1)]]) 2) (HRef 0)
       = Some (PDict [(''xs'', PList [PInt 1])])"
  by (simp add: run_graph_async_store_def dict_copy_def heap_get_def nested_heap_def
        append_to_xs_def numeral_2_eq_2)

end
